theory Spec2Isabelle
  imports Main
begin

section \<open>xml2ddl: the type lattice\<close>

text \<open>
  The program keeps column types as the five string constants \<^verbatim>\<open>"BIT"\<close>, \<^verbatim>\<open>"INT"\<close>,
  \<^verbatim>\<open>"FLOAT"\<close>, \<^verbatim>\<open>"NVARCHAR"\<close> and \<^verbatim>\<open>"NTEXT"\<close>; no other string is ever stored as a
  type. They are the constructors of \<open>DataType\<close> (\<open>INT'\<close> for \<^verbatim>\<open>"INT"\<close>). A slot that may hold Python's
  \<^verbatim>\<open>None\<close> (the value type of a table) is a \<open>DataType option\<close>.

  Strings are lists of 8-bit characters: the model covers text whose code points are
  below 256, where the pattern \<^verbatim>\<open>\d\<close> of Python's \<^verbatim>\<open>re\<close> matches the ten ASCII digits
  only.
\<close>

datatype DataType = BIT | INT' | FLOAT | NVARCHAR | NTEXT

text \<open>The position of a type in the order BIT < INT < FLOAT < NVARCHAR < NTEXT.\<close>

fun rank :: "DataType \<Rightarrow> nat" where
  "rank BIT = 0"
| "rank INT' = 1"
| "rank FLOAT = 2"
| "rank NVARCHAR = 3"
| "rank NTEXT = 4"

text \<open>The exceptions of the program that the modelled code can raise, and Python's
  \<^verbatim>\<open>KeyError\<close> for a subscript on a dictionary that lacks the key.\<close>

datatype error = XTDNameError | XTDNotValid | KeyError

subsection \<open>Regular expressions\<close>

text \<open>
  The fragment of Python's \<^verbatim>\<open>re\<close> syntax that \<^verbatim>\<open>get_data_type\<close> uses: literal
  characters, a character class, concatenation, alternation, \<^verbatim>\<open>?\<close>, \<^verbatim>\<open>*\<close> and \<^verbatim>\<open>+\<close>.
  A pattern is matched against a whole string by taking derivatives.
\<close>

datatype rexp =
    Lit char
  | Cls "char list"
  | Cat rexp rexp
  | Alt rexp rexp
  | Opt rexp
  | Star rexp
  | Plus rexp
  | Eps
  | Nothing

fun nullable :: "rexp \<Rightarrow> bool" where
  "nullable (Lit c) = False"
| "nullable (Cls cs) = False"
| "nullable (Cat r s) = (nullable r \<and> nullable s)"
| "nullable (Alt r s) = (nullable r \<or> nullable s)"
| "nullable (Opt r) = True"
| "nullable (Star r) = True"
| "nullable (Plus r) = nullable r"
| "nullable Eps = True"
| "nullable Nothing = False"

fun deriv :: "char \<Rightarrow> rexp \<Rightarrow> rexp" where
  "deriv c (Lit d) = (if c = d then Eps else Nothing)"
| "deriv c (Cls cs) = (if c \<in> set cs then Eps else Nothing)"
| "deriv c (Cat r s) =
     (if nullable r then Alt (Cat (deriv c r) s) (deriv c s) else Cat (deriv c r) s)"
| "deriv c (Alt r s) = Alt (deriv c r) (deriv c s)"
| "deriv c (Opt r) = deriv c r"
| "deriv c (Star r) = Cat (deriv c r) (Star r)"
| "deriv c (Plus r) = Cat (deriv c r) (Star r)"
| "deriv c Eps = Nothing"
| "deriv c Nothing = Nothing"

fun fullmatch :: "rexp \<Rightarrow> string \<Rightarrow> bool" where
  "fullmatch r [] = nullable r"
| "fullmatch r (c # cs) = fullmatch (deriv c r) cs"

text \<open>
  \<^verbatim>\<open>re.search("^r$", data)\<close> without flags: \<^verbatim>\<open>^\<close> matches at the start of the string only,
  and \<^verbatim>\<open>$\<close> matches at the end of the string and also just before a newline that is the
  last character.
\<close>

definition search_anchored :: "rexp \<Rightarrow> string \<Rightarrow> bool" where
  "search_anchored r data =
     (fullmatch r data \<or>
      (data \<noteq> [] \<and> last data = CHR 0x0A \<and> fullmatch r (butlast data)))"

fun word :: "string \<Rightarrow> rexp" where
  "word [] = Eps"
| "word (c # cs) = Cat (Lit c) (word cs)"

definition digit :: rexp where
  "digit = Cls ''0123456789''"

definition sign :: rexp where
  "sign = Cls ''-+''"

text \<open>\<^verbatim>\<open>(^1$)|(^0$)|(^True$)|(^False$)\<close>\<close>

definition bit_pattern :: rexp where
  "bit_pattern = Alt (word ''1'') (Alt (word ''0'') (Alt (word ''True'') (word ''False'')))"

text \<open>\<^verbatim>\<open>^[0-9]+$\<close>\<close>

definition int_pattern :: rexp where
  "int_pattern = Plus digit"

text \<open>\<^verbatim>\<open>^[-+]?\d*\.?\d+((e|E)[-+]?\d+)?$\<close>\<close>

definition float_pattern :: rexp where
  "float_pattern =
     Cat (Opt sign)
      (Cat (Star digit)
        (Cat (Opt (Lit CHR ''.''))
          (Cat (Plus digit)
            (Opt (Cat (Alt (Lit CHR ''e'') (Lit CHR ''E''))
                   (Cat (Opt sign) (Plus digit)))))))"

subsection \<open>\<^verbatim>\<open>get_data_type\<close> and \<^verbatim>\<open>data_type_usable\<close>\<close>

text \<open>The first \<^verbatim>\<open>if\<close> chain of \<^verbatim>\<open>get_data_type\<close>: the type of the datum alone
  (\<^verbatim>\<open>indata_type\<close>). The flag \<open>val\<close> is the parameter \<^verbatim>\<open>value\<close>.\<close>

definition indata_type :: "string \<Rightarrow> bool \<Rightarrow> DataType" where
  "indata_type data val =
     (if data = [] then BIT
      else if search_anchored bit_pattern data then BIT
      else if search_anchored int_pattern data then INT'
      else if search_anchored float_pattern data then FLOAT
      else if \<not> val then NVARCHAR
      else NTEXT)"

text \<open>
  The second \<^verbatim>\<open>if\<close> chain, with the conditions grouped as Python parses them:
  \<^verbatim>\<open>and\<close> binds tighter than \<^verbatim>\<open>or\<close>.
\<close>

definition get_data_type :: "string \<Rightarrow> DataType \<Rightarrow> bool \<Rightarrow> DataType" where
  "get_data_type data data_type val =
     (let indata = indata_type data val in
      if data_type = BIT then indata
      else if (data_type = INT' \<and> indata = BIT) \<or> indata = INT' then data_type
      else if (data_type = FLOAT \<and> indata = BIT) \<or> indata = INT' \<or> indata = FLOAT
        then data_type
      else if data_type = NVARCHAR \<and> indata \<noteq> NTEXT then data_type
      else if data_type = NTEXT then data_type
      else indata)"

text \<open>\<^verbatim>\<open>data_type_usable(data1, data2)\<close>: can \<open>data2\<close> be stored in \<open>data1\<close>. Either
  argument may be \<^verbatim>\<open>None\<close> when the value types of two tables are compared.\<close>

definition data_type_usable :: "DataType option \<Rightarrow> DataType option \<Rightarrow> bool" where
  "data_type_usable data1 data2 =
     (if data1 = Some BIT then
        (if data2 = Some BIT then True else False)
      else if data1 = Some INT' then
        (if data2 = Some BIT then True
         else if data2 = Some INT' then True
         else False)
      else if data1 = Some FLOAT then
        (if data2 = Some BIT then True
         else if data2 = Some INT' then True
         else if data2 = Some FLOAT then True
         else False)
      else if data1 = Some NVARCHAR then
        (if data2 = Some BIT then True
         else if data2 = Some INT' then True
         else if data2 = Some FLOAT then True
         else if data2 = Some NVARCHAR then True
         else False)
      else if data1 = Some NTEXT then True
      else True)"

section \<open>Dictionaries and sets\<close>

text \<open>
  A Python \<^verbatim>\<open>dict\<close> is an association list with distinct keys, in insertion order:
  \<^verbatim>\<open>d[k] = v\<close> replaces the value of a key that is present, in place, and appends a new
  key. \<^verbatim>\<open>d.get(k)\<close> and \<^verbatim>\<open>k in d\<close> are \<open>map_of d k\<close>.
\<close>

fun dict_set :: "('k \<times> 'v) list \<Rightarrow> 'k \<Rightarrow> 'v \<Rightarrow> ('k \<times> 'v) list" where
  "dict_set [] k v = [(k, v)]"
| "dict_set ((k', v') # d) k v = (if k' = k then (k, v) # d else (k', v') # dict_set d k v)"

definition dict_keys :: "('k \<times> 'v) list \<Rightarrow> 'k list" where
  "dict_keys d = map fst d"

text \<open>
  A Python \<^verbatim>\<open>set\<close> of names is the list of its elements in the order in which a
  \<^verbatim>\<open>for\<close> loop visits them. \<^verbatim>\<open>s.add(x)\<close> keeps the elements distinct; the model puts a
  new element last. The order in which CPython visits a set depends on the hashes of
  its elements, so the theorems about the traversal hold for every list of
  relations, not only for those that \<open>set_add\<close> builds.
\<close>

definition set_add :: "'a list \<Rightarrow> 'a \<Rightarrow> 'a list" where
  "set_add s x = (if x \<in> set s then s else s @ [x])"

section \<open>\<^verbatim>\<open>class Table\<close>\<close>

record Table =
  t_name :: string
  t_columns :: "(string \<times> DataType) list"
  t_relations :: "(string \<times> int) list"
  t_keys :: "(string \<times> DataType) list"
  t_refs :: "(string \<times> string) list"
  t_value :: "DataType option"

text \<open>\<^verbatim>\<open>Table.__init__(name)\<close>\<close>

definition Table_init :: "string \<Rightarrow> Table" where
  "Table_init name =
     \<lparr>t_name = name, t_columns = [], t_relations = [], t_keys = [], t_refs = [],
      t_value = None\<rparr>"

text \<open>\<^verbatim>\<open>Table.update_relations(relations)\<close>: the loop over \<^verbatim>\<open>relations.items()\<close>.\<close>

fun Table_update_relations :: "Table \<Rightarrow> (string \<times> int) list \<Rightarrow> Table" where
  "Table_update_relations t [] = t"
| "Table_update_relations t ((rel, count) # relations) =
     Table_update_relations
       (t\<lparr>t_relations :=
            dict_set (t_relations t) rel
              (max (case map_of (t_relations t) rel of None \<Rightarrow> 0 | Some c \<Rightarrow> c) count)\<rparr>)
       relations"

text \<open>\<^verbatim>\<open>Table.update_value(data)\<close>: the previous type is read from the columns, under
  the key \<^verbatim>\<open>"value"\<close>, and the result is stored in the value slot.\<close>

definition Table_update_value :: "Table \<Rightarrow> string \<Rightarrow> Table" where
  "Table_update_value t data =
     t\<lparr>t_value :=
         Some (get_data_type data
                 (case map_of (t_columns t) ''value'' of None \<Rightarrow> BIT | Some ty \<Rightarrow> ty)
                 True)\<rparr>"

text \<open>\<^verbatim>\<open>Table.update_attribute(column, data)\<close>\<close>

definition Table_update_attribute :: "Table \<Rightarrow> string \<Rightarrow> string \<Rightarrow> error + Table" where
  "Table_update_attribute t column data =
     (if column = ''value'' then Inr (Table_update_value t data)
      else if column = ''prk_'' @ t_name t @ ''_id'' then Inl XTDNameError
      else Inr (t\<lparr>t_columns :=
                   dict_set (t_columns t) column
                     (get_data_type data
                        (case map_of (t_columns t) column of None \<Rightarrow> BIT | Some ty \<Rightarrow> ty)
                        False)\<rparr>))"

text \<open>\<^verbatim>\<open>Table.set_key(ref)\<close>\<close>

definition Table_set_key :: "Table \<Rightarrow> string \<Rightarrow> error + Table" where
  "Table_set_key t ref =
     (let fkname = ref @ ''_id'' in
      if fkname \<in> set (dict_keys (t_columns t)) then Inl XTDNameError
      else Inr (t\<lparr>t_keys := dict_set (t_keys t) fkname INT'\<rparr>))"

section \<open>\<^verbatim>\<open>class Database\<close>\<close>

record Database =
  db_etc :: int
  db_duplicity :: bool
  db_entries :: "(string \<times> Table) list"
  db_no_columns :: bool
  db_relations :: "(string \<times> string list) list"

text \<open>\<^verbatim>\<open>Database.__init__(etc, duplicity, no_columns)\<close>\<close>

definition Database_init :: "int \<Rightarrow> bool \<Rightarrow> bool \<Rightarrow> Database" where
  "Database_init etc duplicity no_columns =
     \<lparr>db_etc = etc, db_duplicity = duplicity, db_entries = [], db_no_columns = no_columns,
      db_relations = []\<rparr>"

text \<open>
  The three update methods begin with
  \<^verbatim>\<open>if name not in self.__entries: self.__entries[name] = Table(name)\<close>
  and then change \<^verbatim>\<open>self.__entries[name]\<close> in place. \<open>entry db name\<close> is the table that
  the method changes; storing the changed table with \<open>dict_set\<close> appends it when the
  name was absent.
\<close>

definition entry :: "Database \<Rightarrow> string \<Rightarrow> Table" where
  "entry db name =
     (case map_of (db_entries db) name of None \<Rightarrow> Table_init name | Some t \<Rightarrow> t)"

definition update_relations :: "Database \<Rightarrow> string \<Rightarrow> (string \<times> int) list \<Rightarrow> Database" where
  "update_relations db name relations =
     db\<lparr>db_entries :=
          dict_set (db_entries db) name (Table_update_relations (entry db name) relations)\<rparr>"

definition update_value :: "Database \<Rightarrow> string \<Rightarrow> string \<Rightarrow> Database" where
  "update_value db name data =
     db\<lparr>db_entries := dict_set (db_entries db) name (Table_update_value (entry db name) data)\<rparr>"

definition update_attribute :: "Database \<Rightarrow> string \<Rightarrow> string \<Rightarrow> string \<Rightarrow> error + Database" where
  "update_attribute db name attribute data =
     (if \<not> db_no_columns db then
        (case Table_update_attribute (entry db name) attribute data of
           Inl e \<Rightarrow> Inl e
         | Inr t \<Rightarrow> Inr (db\<lparr>db_entries := dict_set (db_entries db) name t\<rparr>))
      else Inr db)"

text \<open>The getters \<^verbatim>\<open>columns\<close>, \<^verbatim>\<open>keys\<close> and \<^verbatim>\<open>value\<close> of the database; \<^verbatim>\<open>None\<close> for a
  table that does not exist.\<close>

definition columns :: "Database \<Rightarrow> string \<Rightarrow> (string \<times> DataType) list option" where
  "columns db table = map_option t_columns (map_of (db_entries db) table)"

definition keys :: "Database \<Rightarrow> string \<Rightarrow> string list option" where
  "keys db table = map_option (\<lambda>t. dict_keys (t_keys t)) (map_of (db_entries db) table)"

definition value_of :: "Database \<Rightarrow> string \<Rightarrow> DataType option option" where
  "value_of db table = map_option t_value (map_of (db_entries db) table)"

subsection \<open>\<^verbatim>\<open>Database.flush\<close>\<close>

text \<open>\<^verbatim>\<open>str(n)\<close> for a natural number: its decimal digits.\<close>

fun str :: "nat \<Rightarrow> string" where
  "str n = (if n < 10 then [''0123456789'' ! n] else str (n div 10) @ [''0123456789'' ! (n mod 10)])"

declare str.simps [simp del]

text \<open>The first loop of \<^verbatim>\<open>flush\<close>: an empty set of relations for the name of every table.\<close>

fun init_relations ::
  "(string \<times> string list) list \<Rightarrow> (string \<times> Table) list \<Rightarrow> (string \<times> string list) list" where
  "init_relations rels [] = rels"
| "init_relations rels ((k, table) # entries) =
     init_relations (dict_set rels (t_name table) []) entries"

text \<open>\<^verbatim>\<open>self.__relations[holder].add(name)\<close>\<close>

definition relations_add ::
  "(string \<times> string list) list \<Rightarrow> string \<Rightarrow> string \<Rightarrow> error + (string \<times> string list) list" where
  "relations_add rels holder name =
     (case map_of rels holder of
        None \<Rightarrow> Inl KeyError
      | Some s \<Rightarrow> Inr (dict_set rels holder (set_add s name)))"

text \<open>The loop \<^verbatim>\<open>for num in range(count)\<close> of the last branch.\<close>

fun set_numbered_keys :: "Table \<Rightarrow> string \<Rightarrow> nat list \<Rightarrow> error + Table" where
  "set_numbered_keys table name [] = Inr table"
| "set_numbered_keys table name (num # nums) =
     (if name @ str (num + 1) \<in> set (dict_keys (t_columns table)) then Inl XTDNameError
      else (case Table_set_key table (name @ str (num + 1)) of
              Inl e \<Rightarrow> Inl e
            | Inr table' \<Rightarrow> set_numbered_keys table' name nums))"

text \<open>
  The body of the inner loop, for the relation \<open>(name, count)\<close> of the table stored
  under the key \<open>tkey\<close>. The table is an object that the loop changes in place; the model
  reads it from the entries and stores it back under its key. Nothing in \<^verbatim>\<open>flush\<close>
  adds or removes an entry, so the key is always found.
\<close>

definition flush_relation :: "Database \<Rightarrow> string \<Rightarrow> string \<Rightarrow> int \<Rightarrow> error + Database" where
  "flush_relation db tkey name count =
     (case map_of (db_entries db) tkey of
        None \<Rightarrow> Inl KeyError
      | Some table \<Rightarrow>
          if db_duplicity db then
            (if name \<in> set (dict_keys (t_columns table)) then Inl XTDNameError
             else (case Table_set_key table name of
                     Inl e \<Rightarrow> Inl e
                   | Inr table' \<Rightarrow>
                       (case relations_add (db_relations db) (t_name table) name of
                          Inl e \<Rightarrow> Inl e
                        | Inr rels \<Rightarrow>
                            Inr (db\<lparr>db_entries := dict_set (db_entries db) tkey table',
                                    db_relations := rels\<rparr>))))
          else if db_etc db \<noteq> - 1 \<and> count > db_etc db then
            (case map_of (db_entries db) name of
               None \<Rightarrow> Inl KeyError
             | Some target \<Rightarrow>
                 if name \<in> set (dict_keys (t_columns target)) then Inl XTDNameError
                 else (case Table_set_key target (t_name table) of
                         Inl e \<Rightarrow> Inl e
                       | Inr target' \<Rightarrow>
                           (case relations_add (db_relations db) name (t_name table) of
                              Inl e \<Rightarrow> Inl e
                            | Inr rels \<Rightarrow>
                                Inr (db\<lparr>db_entries := dict_set (db_entries db) name target',
                                        db_relations := rels\<rparr>))))
          else
            (case (if count = 1 then
                     (if name \<in> set (dict_keys (t_columns table)) then Inl XTDNameError
                      else Table_set_key table name)
                   else set_numbered_keys table name [0 ..< nat count]) of
               Inl e \<Rightarrow> Inl e
             | Inr table' \<Rightarrow>
                 (case relations_add (db_relations db) (t_name table) name of
                    Inl e \<Rightarrow> Inl e
                  | Inr rels \<Rightarrow>
                      Inr (db\<lparr>db_entries := dict_set (db_entries db) tkey table',
                              db_relations := rels\<rparr>))))"

text \<open>The inner loop \<^verbatim>\<open>for name, count in table.relations().items()\<close>; \<^verbatim>\<open>flush\<close> does not
  change the relation counts of a table, so the loop runs over the list read at its
  start.\<close>

fun flush_table :: "Database \<Rightarrow> string \<Rightarrow> (string \<times> int) list \<Rightarrow> error + Database" where
  "flush_table db tkey [] = Inr db"
| "flush_table db tkey ((name, count) # rels) =
     (case flush_relation db tkey name count of
        Inl e \<Rightarrow> Inl e
      | Inr db' \<Rightarrow> flush_table db' tkey rels)"

text \<open>The outer loop \<^verbatim>\<open>for table in self.__entries.values()\<close>, by the keys of the
  entries.\<close>

fun flush_tables :: "Database \<Rightarrow> string list \<Rightarrow> error + Database" where
  "flush_tables db [] = Inr db"
| "flush_tables db (tkey # tkeys) =
     (case map_of (db_entries db) tkey of
        None \<Rightarrow> Inl KeyError
      | Some table \<Rightarrow>
          (case flush_table db tkey (t_relations table) of
             Inl e \<Rightarrow> Inl e
           | Inr db' \<Rightarrow> flush_tables db' tkeys))"

definition flush :: "Database \<Rightarrow> error + Database" where
  "flush db =
     flush_tables (db\<lparr>db_relations := init_relations [] (db_entries db)\<rparr>)
       (dict_keys (db_entries db))"

subsection \<open>\<^verbatim>\<open>Database.print_ddl\<close>\<close>

text \<open>
  The output file is the list of the strings written to it, one element for each call
  of \<^verbatim>\<open>fout.write\<close>, in order.
\<close>

definition nl :: string where
  "nl = [CHR 0x0A]"

definition dq :: string where
  "dq = [CHR 0x22]"

fun type_name :: "DataType \<Rightarrow> string" where
  "type_name BIT = ''BIT''"
| "type_name INT' = ''INT''"
| "type_name FLOAT = ''FLOAT''"
| "type_name NVARCHAR = ''NVARCHAR''"
| "type_name NTEXT = ''NTEXT''"

text \<open>The writes of \<^verbatim>\<open>print_ddl\<close> for one table.\<close>

definition ddl_table :: "Table \<Rightarrow> string list" where
  "ddl_table table =
     [''CREATE TABLE '' @ t_name table @ ''('' @ nl @ ''   prk_'' @ t_name table @ ''_id''
        @ '' INT PRIMARY KEY'']
     @ map (\<lambda>key. '','' @ nl @ ''   '' @ key @ '' INT'') (dict_keys (t_keys table))
     @ map (\<lambda>(column, data_type). '','' @ nl @ ''   '' @ column @ '' '' @ type_name data_type)
         (t_columns table)
     @ (case t_value table of
          None \<Rightarrow> []
        | Some data_type \<Rightarrow> ['','' @ nl @ ''   value '' @ type_name data_type])
     @ [nl @ '');'' @ nl @ nl]"

definition print_ddl :: "Database \<Rightarrow> string list \<Rightarrow> error + Database \<times> string list" where
  "print_ddl db fout =
     (case flush db of
        Inl e \<Rightarrow> Inl e
      | Inr db' \<Rightarrow> Inr (db', fout @ concat (map (\<lambda>(k, table). ddl_table table) (db_entries db'))))"

subsection \<open>\<^verbatim>\<open>Database.print_relation\<close> and \<^verbatim>\<open>Database.print_tablerel\<close>\<close>

text \<open>The second string that \<^verbatim>\<open>print_relation\<close> writes: the line of the relation.\<close>

definition relation_line :: "string \<Rightarrow> string \<Rightarrow> string" where
  "relation_line relation_type table =
     ''<relation to='' @ dq @ table @ dq @ '' relation_type='' @ dq @ relation_type @ dq
       @ '' '' @ [CHR 0x5C] @ ''>'' @ nl"

definition print_relation :: "string list \<Rightarrow> string \<Rightarrow> string \<Rightarrow> string list" where
  "print_relation fout relation_type table =
     fout @ [''        '', relation_line relation_type table]"

text \<open>
  What a traversal for one origin shares between its calls: the output file, the list
  \<^verbatim>\<open>route\<close>, which the calls extend in place, and the flag \<^verbatim>\<open>printed\<close>, which every call
  takes as an argument and returns.
\<close>

record trav =
  out :: "string list"
  route :: "string list"
  printed :: bool

text \<open>
  A traversal returns \<open>None\<close> when it needs deeper recursion than its fuel allows,
  \<open>Some (Inl (e, fout))\<close> when it raises \<open>e\<close> after having written \<open>fout\<close>, and
  \<open>Some (Inr st)\<close> when it returns.
\<close>

type_synonym outcome = "((error \<times> string list) + trav) option"

text \<open>The three statements that print the 1:1 relation to the origin.\<close>

definition print_origin :: "trav \<Rightarrow> string \<Rightarrow> trav" where
  "print_origin st table =
     st\<lparr>out := print_relation (out st) ''1:1'' table,
        route := route st @ [table],
        printed := True\<rparr>"

text \<open>
  The loop "Check my foreign keys", \<^verbatim>\<open>for table in self.__relations[tname_to]\<close>. The three
  copies of the loop differ in the relation type of the recursive call only; \<open>call\<close> is
  that recursive call.
\<close>

fun check_keys :: "(string \<Rightarrow> trav \<Rightarrow> outcome) \<Rightarrow> string \<Rightarrow> string list \<Rightarrow> trav \<Rightarrow> outcome" where
  "check_keys call toriginal [] st = Some (Inr st)"
| "check_keys call toriginal (table # tables) st =
     (if table = toriginal \<and> \<not> printed st then
        check_keys call toriginal tables (print_origin st table)
      else if table \<notin> set (route st) then
        (case call table st of
           None \<Rightarrow> None
         | Some (Inl e) \<Rightarrow> Some (Inl e)
         | Some (Inr st') \<Rightarrow> check_keys call toriginal tables st')
      else check_keys call toriginal tables st)"

text \<open>The loop "Check for tables, which are referencing me",
  \<^verbatim>\<open>for table in self.__entries.keys()\<close>.\<close>

fun check_refs ::
  "(string \<Rightarrow> trav \<Rightarrow> outcome) \<Rightarrow> Database \<Rightarrow> string \<Rightarrow> string \<Rightarrow> string list \<Rightarrow> trav \<Rightarrow> outcome" where
  "check_refs call db toriginal tname_to [] st = Some (Inr st)"
| "check_refs call db toriginal tname_to (table # tables) st =
     (case map_of (db_relations db) table of
        None \<Rightarrow> Some (Inl (KeyError, out st))
      | Some rels \<Rightarrow>
          if tname_to \<in> set rels then
            (let st1 = (if table = toriginal \<and> \<not> printed st then print_origin st table else st)
             in if table \<noteq> toriginal \<and> table \<notin> set (route st1) then
                  (case call table st1 of
                     None \<Rightarrow> None
                   | Some (Inl e) \<Rightarrow> Some (Inl e)
                   | Some (Inr st') \<Rightarrow> check_refs call db toriginal tname_to tables st')
                else check_refs call db toriginal tname_to tables st1)
          else check_refs call db toriginal tname_to tables st)"

text \<open>
  What the three branches of \<^verbatim>\<open>print_tablerel\<close> do once a relation to \<open>tname_to\<close> is
  accepted: append it to the route and run the two loops. \<open>rel_keys\<close> and \<open>rel_refs\<close> are
  the relation types that the branch passes to the recursive calls of the first and of
  the second loop; \<open>self\<close> is \<^verbatim>\<open>print_tablerel\<close> with one unit of fuel less.
\<close>

definition visit ::
  "(string \<Rightarrow> string \<Rightarrow> nat \<Rightarrow> trav \<Rightarrow> outcome) \<Rightarrow> Database \<Rightarrow> string \<Rightarrow> string \<Rightarrow> nat \<Rightarrow> nat
     \<Rightarrow> trav \<Rightarrow> outcome" where
  "visit self db toriginal tname_to rel_keys rel_refs st =
     (let st1 = st\<lparr>route := route st @ [tname_to]\<rparr> in
      case map_of (db_relations db) tname_to of
        None \<Rightarrow> Some (Inl (KeyError, out st1))
      | Some rels \<Rightarrow>
          (case check_keys (\<lambda>table. self tname_to table rel_keys) toriginal rels st1 of
             None \<Rightarrow> None
           | Some (Inl e) \<Rightarrow> Some (Inl e)
           | Some (Inr st2) \<Rightarrow>
               check_refs (\<lambda>table. self tname_to table rel_refs) db toriginal tname_to
                 (dict_keys (db_entries db)) st2))"

text \<open>
  \<^verbatim>\<open>print_tablerel(fout, toriginal, tname_from, tname_to, rel, printed, route)\<close>. The first
  argument bounds the depth of the recursion: every recursive call gets one unit less.
\<close>

primrec print_tablerel ::
  "nat \<Rightarrow> Database \<Rightarrow> string \<Rightarrow> string \<Rightarrow> string \<Rightarrow> nat \<Rightarrow> trav \<Rightarrow> outcome" where
  "print_tablerel 0 db toriginal tname_from tname_to rel st = None"
| "print_tablerel (Suc fuel) db toriginal tname_from tname_to rel st =
     (if rel = 0 then
        (case map_of (db_relations db) tname_from of
           None \<Rightarrow> Some (Inl (KeyError, out st))
         | Some rels_from \<Rightarrow>
             if tname_to \<in> set rels_from \<and> tname_to \<notin> set (route st) then
               (case map_of (db_relations db) tname_to of
                  None \<Rightarrow> Some (Inl (KeyError, out st))
                | Some rels_to \<Rightarrow>
                    visit (print_tablerel fuel db toriginal) db toriginal tname_to 0 2
                      (st\<lparr>out := print_relation (out st)
                                   (if tname_from \<in> set rels_to then ''N:M'' else ''N:1'')
                                   tname_to\<rparr>))
             else Some (Inr st))
      else if rel = 1 then
        (case map_of (db_relations db) tname_to of
           None \<Rightarrow> Some (Inl (KeyError, out st))
         | Some rels_to \<Rightarrow>
             if tname_from \<in> set rels_to \<and> tname_to \<notin> set (route st) then
               (case map_of (db_relations db) tname_from of
                  None \<Rightarrow> Some (Inl (KeyError, out st))
                | Some rels_from \<Rightarrow>
                    visit (print_tablerel fuel db toriginal) db toriginal tname_to 2 1
                      (if tname_to \<in> set rels_from then
                         (if tname_from \<noteq> toriginal then
                            st\<lparr>out := print_relation (out st) ''N:M'' tname_to\<rparr>
                          else st)
                       else st\<lparr>out := print_relation (out st) ''1:N'' tname_to\<rparr>))
             else Some (Inr st))
      else if rel = 2 then
        (if tname_to \<notin> set (route st) \<and> tname_to \<noteq> toriginal then
           visit (print_tablerel fuel db toriginal) db toriginal tname_to 2 2
             (st\<lparr>out := print_relation (out st) ''N:M'' tname_to\<rparr>)
         else Some (Inr st))
      else Some (Inr st))"

subsection \<open>\<^verbatim>\<open>Database.print_xmlrel\<close>\<close>

text \<open>The first loop over \<^verbatim>\<open>self.__entries.keys()\<close> for the origin \<open>table1\<close>.\<close>

fun xmlrel_forward :: "nat \<Rightarrow> Database \<Rightarrow> string \<Rightarrow> string list \<Rightarrow> trav \<Rightarrow> outcome" where
  "xmlrel_forward fuel db table1 [] st = Some (Inr st)"
| "xmlrel_forward fuel db table1 (table2 # tables) st =
     (if table2 \<noteq> table1 then
        (case print_tablerel fuel db table1 table1 table2 0 st of
           None \<Rightarrow> None
         | Some (Inl e) \<Rightarrow> Some (Inl e)
         | Some (Inr st') \<Rightarrow> xmlrel_forward fuel db table1 tables st')
      else xmlrel_forward fuel db table1 tables st)"

text \<open>The second loop over \<^verbatim>\<open>self.__entries.keys()\<close> for the origin \<open>table1\<close>.\<close>

fun xmlrel_backward :: "nat \<Rightarrow> Database \<Rightarrow> string \<Rightarrow> string list \<Rightarrow> trav \<Rightarrow> outcome" where
  "xmlrel_backward fuel db table1 [] st = Some (Inr st)"
| "xmlrel_backward fuel db table1 (table2 # tables) st =
     (case map_of (db_relations db) table2 of
        None \<Rightarrow> Some (Inl (KeyError, out st))
      | Some rels \<Rightarrow>
          if table1 \<in> set rels then
            (if table1 = table2 \<and> \<not> printed st then
               xmlrel_backward fuel db table1 tables (print_origin st table1)
             else
               (case print_tablerel fuel db table1 table1 table2 1 st of
                  None \<Rightarrow> None
                | Some (Inl e) \<Rightarrow> Some (Inl e)
                | Some (Inr st') \<Rightarrow> xmlrel_backward fuel db table1 tables st'))
          else xmlrel_backward fuel db table1 tables st)"

text \<open>
  The body of the loop \<^verbatim>\<open>for table1 in self.__entries.keys()\<close>: the report of the origin
  \<open>table1\<close>, written after \<open>fout\<close>. The state that is returned holds the file, and the
  route and the flag as the two loops left them.
\<close>

definition table_open :: "string \<Rightarrow> string" where
  "table_open table1 = ''    <table name='' @ dq @ table1 @ dq @ ''>'' @ nl"

definition table_close :: string where
  "table_close = ''    </table>'' @ nl"

definition xmlrel_table :: "nat \<Rightarrow> Database \<Rightarrow> string \<Rightarrow> string list \<Rightarrow> outcome" where
  "xmlrel_table fuel db table1 fout =
     (case xmlrel_forward fuel db table1 (dict_keys (db_entries db))
             \<lparr>out = fout @ [table_open table1], route = [], printed = False\<rparr> of
        None \<Rightarrow> None
      | Some (Inl e) \<Rightarrow> Some (Inl e)
      | Some (Inr st) \<Rightarrow>
          (case xmlrel_backward fuel db table1 (dict_keys (db_entries db)) st of
             None \<Rightarrow> None
           | Some (Inl e) \<Rightarrow> Some (Inl e)
           | Some (Inr st') \<Rightarrow> Some (Inr (st'\<lparr>out := out st' @ [table_close]\<rparr>))))"

fun xmlrel_tables ::
  "nat \<Rightarrow> Database \<Rightarrow> string list \<Rightarrow> string list \<Rightarrow> ((error \<times> string list) + string list) option" where
  "xmlrel_tables fuel db [] fout = Some (Inr fout)"
| "xmlrel_tables fuel db (table1 # tables) fout =
     (case xmlrel_table fuel db table1 fout of
        None \<Rightarrow> None
      | Some (Inl e) \<Rightarrow> Some (Inl e)
      | Some (Inr st) \<Rightarrow> xmlrel_tables fuel db tables (out st))"

definition print_xmlrel ::
  "nat \<Rightarrow> Database \<Rightarrow> string list \<Rightarrow> ((error \<times> string list) + Database \<times> string list) option" where
  "print_xmlrel fuel db fout =
     (case flush db of
        Inl e \<Rightarrow> Some (Inl (e, fout))
      | Inr db' \<Rightarrow>
          (case xmlrel_tables fuel db' (dict_keys (db_entries db')) (fout @ [''<tables>'' @ nl]) of
             None \<Rightarrow> None
           | Some (Inl e) \<Rightarrow> Some (Inl e)
           | Some (Inr fout') \<Rightarrow> Some (Inr (db', fout' @ [''</tables>'' @ nl]))))"

subsection \<open>\<^verbatim>\<open>Database.is_subset\<close>\<close>

text \<open>The loop over the columns of a table of the second database; \<open>own\<close> are the
  columns of the table of that name in \<^verbatim>\<open>self\<close>.\<close>

fun columns_usable :: "(string \<times> DataType) list \<Rightarrow> (string \<times> DataType) list \<Rightarrow> bool" where
  "columns_usable own [] = True"
| "columns_usable own ((column, data_type) # cols) =
     (case map_of own column of
        None \<Rightarrow> False
      | Some ty \<Rightarrow>
          if \<not> data_type_usable (Some ty) (Some data_type) then False
          else columns_usable own cols)"

fun is_subset_entries :: "Database \<Rightarrow> (string \<times> Table) list \<Rightarrow> bool" where
  "is_subset_entries self [] = True"
| "is_subset_entries self ((tname, table) # entries) =
     (case map_of (db_entries self) tname of
        None \<Rightarrow> False
      | Some own \<Rightarrow>
          if \<not> columns_usable (t_columns own) (t_columns table) then False
          else if \<not> data_type_usable (t_value own) (t_value table) then False
          else is_subset_entries self entries)"

definition is_subset :: "Database \<Rightarrow> Database \<Rightarrow> bool" where
  "is_subset self db = is_subset_entries self (db_entries db)"

section \<open>The tree walker and the main function\<close>

text \<open>
  An element of the parsed document: its tag, its attributes in document order, its
  text (\<^verbatim>\<open>None\<close> when there is none) and its children.
\<close>

datatype element =
  Element (el_tag: string) (el_attrib: "(string \<times> string) list") (el_text: "string option")
    (el_children: "element list")

text \<open>\<^verbatim>\<open>str.lower\<close> and \<^verbatim>\<open>str.isspace\<close> on code points below 256.\<close>

definition lower_char :: "char \<Rightarrow> char" where
  "lower_char c =
     (let n = (of_char c :: nat) in
      if (65 \<le> n \<and> n \<le> 90) \<or> (192 \<le> n \<and> n \<le> 222 \<and> n \<noteq> 215) then char_of (n + 32) else c)"

definition lower :: "string \<Rightarrow> string" where
  "lower s = map lower_char s"

definition isspace :: "string \<Rightarrow> bool" where
  "isspace s =
     (s \<noteq> [] \<and>
      (\<forall>c \<in> set s. (of_char c :: nat) \<in> set [9, 10, 11, 12, 13, 28, 29, 30, 31, 32, 133, 160]))"

text \<open>The loop \<^verbatim>\<open>for cname, data in item.items()\<close> of \<^verbatim>\<open>xtd_database\<close>.\<close>

fun update_attributes :: "Database \<Rightarrow> string \<Rightarrow> (string \<times> string) list \<Rightarrow> error + Database" where
  "update_attributes db name [] = Inr db"
| "update_attributes db name ((cname, data) # items) =
     (case update_attribute db name (lower cname) data of
        Inl e \<Rightarrow> Inl e
      | Inr db' \<Rightarrow> update_attributes db' name items)"

text \<open>\<^verbatim>\<open>xtd_database(item, db)\<close>; \<open>xtd_children\<close> is its loop over the children, which counts
  the tags in \<^verbatim>\<open>info\<close>.\<close>

fun xtd_database :: "element \<Rightarrow> Database \<Rightarrow> error + Database"
  and xtd_children ::
    "element list \<Rightarrow> (string \<times> int) list \<Rightarrow> Database \<Rightarrow> error + (string \<times> int) list \<times> Database" where
  "xtd_database (Element tag attrib text children) db =
     (case update_attributes db (lower tag) attrib of
        Inl e \<Rightarrow> Inl e
      | Inr db1 \<Rightarrow>
          (case xtd_children children []
                  (case text of
                     None \<Rightarrow> db1
                   | Some t \<Rightarrow> if t \<noteq> [] \<and> \<not> isspace t then update_value db1 (lower tag) t else db1) of
             Inl e \<Rightarrow> Inl e
           | Inr (info, db2) \<Rightarrow> Inr (update_relations db2 (lower tag) info)))"
| "xtd_children [] info db = Inr (info, db)"
| "xtd_children (child # children) info db =
     (case xtd_database child db of
        Inl e \<Rightarrow> Inl e
      | Inr db' \<Rightarrow>
          xtd_children children
            (dict_set info (lower (el_tag child))
               ((case map_of info (lower (el_tag child)) of None \<Rightarrow> 0 | Some c \<Rightarrow> c) + 1))
            db')"

text \<open>The loop \<^verbatim>\<open>for item in tree.getroot().getchildren()\<close> of \<^verbatim>\<open>xtd\<close>.\<close>

fun xtd_items :: "element list \<Rightarrow> Database \<Rightarrow> error + Database" where
  "xtd_items [] db = Inr db"
| "xtd_items (item # items) db =
     (case xtd_database item db of
        Inl e \<Rightarrow> Inl e
      | Inr db' \<Rightarrow> xtd_items items db')"

text \<open>The command-line parameters that \<^verbatim>\<open>xtd\<close> reads from the dictionary \<^verbatim>\<open>param\<close>.\<close>

record param =
  p_etc :: "int option"
  p_a :: bool
  p_b :: bool
  p_g :: bool
  p_isvalid :: bool
  p_header :: "string option"

text \<open>
  \<^verbatim>\<open>xtd(fin, fout, fval, param)\<close>, from the parsed documents: \<open>fin\<close> and \<open>fval\<close> are the
  root elements of the two trees. The result is \<open>Some (Inl (e, fout'))\<close> when \<open>e\<close> is
  raised after \<open>fout'\<close> has been written, and \<open>Some (Inr fout')\<close> when the function
  returns. The three calls of \<^verbatim>\<open>print\<close> for the header are one string each.
\<close>

definition xtd ::
  "nat \<Rightarrow> element \<Rightarrow> string list \<Rightarrow> element \<Rightarrow> param \<Rightarrow> ((error \<times> string list) + string list) option" where
  "xtd fuel fin fout fval param =
     (let db0 = Database_init (case p_etc param of None \<Rightarrow> - 1 | Some n \<Rightarrow> n) (p_b param)
                  (p_a param) in
      case xtd_items (el_children fin) db0 of
        Inl e \<Rightarrow> Some (Inl (e, fout))
      | Inr db \<Rightarrow>
          (case (if p_isvalid param then
                   (case xtd_items (el_children fval) db0 of
                      Inl e \<Rightarrow> Inl e
                    | Inr db2 \<Rightarrow> if \<not> is_subset db db2 then Inl XTDNotValid else Inr ())
                 else Inr ()) of
             Inl e \<Rightarrow> Some (Inl (e, fout))
           | Inr u \<Rightarrow>
               (let fout1 = (case p_header param of
                               None \<Rightarrow> fout
                             | Some header \<Rightarrow> fout @ [''--'', header @ nl, nl]) in
                if p_g param then
                  (case print_xmlrel fuel db fout1 of
                     None \<Rightarrow> None
                   | Some (Inl e) \<Rightarrow> Some (Inl e)
                   | Some (Inr (db', fout2)) \<Rightarrow> Some (Inr fout2))
                else
                  (case print_ddl db fout1 of
                     Inl e \<Rightarrow> Some (Inl (e, fout1))
                   | Inr (db', fout2) \<Rightarrow> Some (Inr fout2)))))"

section \<open>Predicates of the statements\<close>

text \<open>No attribute column of the database has the type NTEXT.\<close>

definition no_ntext_columns :: "Database \<Rightarrow> bool" where
  "no_ntext_columns db =
     list_all (\<lambda>(k, table). list_all (\<lambda>(column, data_type). data_type \<noteq> NTEXT) (t_columns table))
       (db_entries db)"

text \<open>
  What the update methods keep true of every table of the database: it is stored under
  its own name, and none of its columns has the type NTEXT.
\<close>

definition table_ok :: "string \<Rightarrow> Table \<Rightarrow> bool" where
  "table_ok k table =
     (t_name table = k \<and> list_all (\<lambda>(column, data_type). data_type \<noteq> NTEXT) (t_columns table))"

definition db_ok :: "Database \<Rightarrow> bool" where
  "db_ok db = list_all (\<lambda>(k, table). table_ok k table) (db_entries db)"

text \<open>
  An element collides when one of its attributes, in lower case, is the name of the
  primary key of its table, or when one of its descendants collides.
\<close>

fun collides :: "element \<Rightarrow> bool" where
  "collides (Element tag attrib text children) =
     (list_ex (\<lambda>(cname, data). lower cname = ''prk_'' @ lower tag @ ''_id'') attrib
      \<or> list_ex collides children)"

text \<open>
  The number of lines in \<open>fout\<close> that print the relation 1:1 to \<open>toriginal\<close>; of lines that
  print a relation N:M, N:1 or 1:N to \<open>table\<close>; and of lines that print a relation N:M or
  N:1 to \<open>table\<close>.
\<close>

definition count_origin :: "string \<Rightarrow> string list \<Rightarrow> nat" where
  "count_origin toriginal fout = count_list fout (relation_line ''1:1'' toriginal)"

definition count_relations :: "string \<Rightarrow> string list \<Rightarrow> nat" where
  "count_relations table fout =
     length (filter (\<lambda>line. line \<in> set [relation_line ''N:M'' table, relation_line ''N:1'' table,
                                          relation_line ''1:N'' table]) fout)"

definition count_forward :: "string \<Rightarrow> string list \<Rightarrow> nat" where
  "count_forward table fout =
     length (filter (\<lambda>line. line \<in> set [relation_line ''N:M'' table, relation_line ''N:1'' table])
               fout)"

text \<open>
  \<open>I\<close> is kept by every step of a traversal for the origin \<open>toriginal\<close>: by the three
  statements that print the 1:1 relation, which run only when the flag is not set; by
  printing a relation to \<open>tname_to\<close> and appending it to the route; and, when
  \<open>backward\<close> holds, by appending \<open>tname_to\<close> to the route without a line, which only the
  branch \<^verbatim>\<open>rel == 1\<close> does. The route never holds \<open>tname_to\<close> before, and \<open>pre\<close> is
  something known of every table for which \<^verbatim>\<open>print_tablerel\<close> is called: it is the
  origin only when the flag is set. Without \<open>backward\<close> the relation types are those
  that the branches \<^verbatim>\<open>rel == 0\<close> and \<^verbatim>\<open>rel == 2\<close> print.
\<close>

definition trav_inv ::
  "(string \<Rightarrow> trav \<Rightarrow> bool) \<Rightarrow> bool \<Rightarrow> string \<Rightarrow> (trav \<Rightarrow> bool) \<Rightarrow> bool" where
  "trav_inv pre backward toriginal I =
     ((\<forall>st table. (table = toriginal \<longrightarrow> printed st) \<longrightarrow> pre table st)
      \<and> (\<forall>st. I st \<longrightarrow> \<not> printed st \<longrightarrow> I (print_origin st toriginal))
      \<and> (\<forall>st tname_to relation_type.
            I st \<longrightarrow> tname_to \<notin> set (route st) \<longrightarrow> pre tname_to st \<longrightarrow>
            relation_type \<in> set (if backward then [''N:M'', ''N:1'', ''1:N''] else [''N:M'', ''N:1'']) \<longrightarrow>
            I (st\<lparr>out := print_relation (out st) relation_type tname_to,
                  route := route st @ [tname_to]\<rparr>))
      \<and> (\<forall>st tname_to.
            backward \<longrightarrow> I st \<longrightarrow> tname_to \<notin> set (route st) \<longrightarrow> pre tname_to st \<longrightarrow>
            I (st\<lparr>route := route st @ [tname_to]\<rparr>)))"

text \<open>
  A table is linked to the origin when it refers to the origin, or when the origin is a
  table of the database and refers to it.
\<close>

definition linked :: "Database \<Rightarrow> string \<Rightarrow> string \<Rightarrow> bool" where
  "linked db toriginal table =
     ((\<exists>rels. map_of (db_relations db) table = Some rels \<and> toriginal \<in> set rels)
      \<or> (toriginal \<in> set (dict_keys (db_entries db))
          \<and> (\<exists>rels. map_of (db_relations db) toriginal = Some rels \<and> table \<in> set rels)))"

text \<open>
  \<open>has_link\<close>: some name refers to the origin, or the origin refers to some name.
  \<open>advance\<close> is what a call of the traversal that returns has done: the flag stays set,
  the route has grown, the flag has been set only when the origin has a link, and when
  one of the tables that the call added to the route is linked to the origin, the 1:1
  relation has been printed. \<open>settled\<close> says the last of the whole route.
\<close>

definition has_link :: "Database \<Rightarrow> string \<Rightarrow> bool" where
  "has_link db toriginal =
     ((\<exists>table rels. map_of (db_relations db) table = Some rels \<and> toriginal \<in> set rels)
      \<or> (\<exists>table rels. map_of (db_relations db) toriginal = Some rels \<and> table \<in> set rels))"

definition advance :: "Database \<Rightarrow> string \<Rightarrow> trav \<Rightarrow> trav \<Rightarrow> bool" where
  "advance db toriginal st st' =
     ((printed st \<longrightarrow> printed st') \<and> set (route st) \<subseteq> set (route st')
      \<and> (printed st' \<longrightarrow> printed st \<or> has_link db toriginal)
      \<and> (\<forall>table \<in> set (route st') - set (route st).
            table \<noteq> toriginal \<longrightarrow> linked db toriginal table \<longrightarrow> printed st'))"

definition settled :: "Database \<Rightarrow> string \<Rightarrow> trav \<Rightarrow> bool" where
  "settled db toriginal st =
     (\<forall>table \<in> set (route st). table \<noteq> toriginal \<longrightarrow> linked db toriginal table \<longrightarrow> printed st)"

text \<open>
  How \<^verbatim>\<open>flush\<close> changes the table stored under the key \<open>k\<close>: the table keeps its name
  and its relation counts, and its foreign keys grow by the names in \<open>A\<close>.
\<close>

definition keys_grow :: "string \<Rightarrow> Database \<Rightarrow> Database \<Rightarrow> string set \<Rightarrow> bool" where
  "keys_grow k db db' A =
     (db_duplicity db' = db_duplicity db \<and>
      (case map_of (db_entries db) k of
         None \<Rightarrow> map_of (db_entries db') k = None
       | Some t \<Rightarrow>
           (\<exists>t'. map_of (db_entries db') k = Some t' \<and> t_name t' = t_name t
                 \<and> t_relations t' = t_relations t
                 \<and> set (dict_keys (t_keys t')) = set (dict_keys (t_keys t)) \<union> A)))"

text \<open>Every set of relations of the first database is included in the set of the same
  name of the second.\<close>

definition relations_grow :: "Database \<Rightarrow> Database \<Rightarrow> bool" where
  "relations_grow db db' =
     (\<forall>h s. map_of (db_relations db) h = Some s \<longrightarrow>
        (\<exists>s'. map_of (db_relations db') h = Some s' \<and> set s \<subseteq> set s'))"

section \<open>Example inputs\<close>

definition param_default :: param where
  "param_default =
     \<lparr>p_etc = None, p_a = False, p_b = False, p_g = False, p_isvalid = False, p_header = None\<rparr>"

text \<open>\<^verbatim>\<open><root><a value="some text"/></root>\<close>\<close>

definition doc_value_attr :: element where
  "doc_value_attr = Element ''root'' [] None [Element ''a'' [(''value'', ''some text'')] None []]"

text \<open>\<^verbatim>\<open><root><a c="some text">more text</a></root>\<close>\<close>

definition doc_text_attr :: element where
  "doc_text_attr =
     Element ''root'' [] None [Element ''a'' [(''c'', ''some text'')] (Some ''more text'') []]"

text \<open>\<^verbatim>\<open><root><A PRK_a_ID="7"/></root>\<close>\<close>

definition doc_prk :: element where
  "doc_prk = Element ''root'' [] None [Element ''A'' [(''PRK_a_ID'', ''7'')] None []]"

text \<open>A database whose table \<open>a\<close> has no value type, and one whose table \<open>a\<close> has the
  value type NTEXT.\<close>

definition db_without_value :: Database where
  "db_without_value = update_relations (Database_init (- 1) False False) ''a'' []"

definition db_with_value :: Database where
  "db_with_value = update_value (Database_init (- 1) False False) ''a'' ''some text''"

text \<open>\<^verbatim>\<open><root><a><b/><b/></a></root>\<close>, and the database after the walk of this document in
  duplicate-keys mode.\<close>

definition doc_two_children :: element where
  "doc_two_children =
     Element ''root'' [] None
       [Element ''a'' [] None [Element ''b'' [] None [], Element ''b'' [] None []]]"

definition db_two_children :: Database where
  "db_two_children =
     update_relations (update_relations (Database_init (- 1) True False) ''b'' []) ''a''
       [(''b'', 2)]"

text \<open>
  \<^verbatim>\<open><root><a><x k="1"><b><a/></b></x><b/></a></root>\<close>, the database after the walk of this
  document and \<^verbatim>\<open>flush\<close> in the default mode, and the report of the origin \<open>a\<close>. The
  tables \<open>a\<close> and \<open>b\<close> refer to each other, and \<open>a\<close> is reached from itself through \<open>b\<close> and
  through \<open>x\<close> and \<open>b\<close>.
\<close>

definition doc_cycle :: element where
  "doc_cycle =
     Element ''root'' [] None
       [Element ''a'' [] None
          [Element ''x'' [(''k'', ''1'')] None [Element ''b'' [] None [Element ''a'' [] None []]],
           Element ''b'' [] None []]]"

definition db_cycle :: Database where
  "db_cycle =
     \<lparr>db_etc = - 1, db_duplicity = False,
      db_entries =
        [(''x'', (Table_init ''x'')\<lparr>t_columns := [(''k'', BIT)], t_relations := [(''b'', 1)],
                                   t_keys := [(''b_id'', INT')]\<rparr>),
         (''a'', (Table_init ''a'')\<lparr>t_relations := [(''x'', 1), (''b'', 1)],
                                   t_keys := [(''x_id'', INT'), (''b_id'', INT')]\<rparr>),
         (''b'', (Table_init ''b'')\<lparr>t_relations := [(''a'', 1)], t_keys := [(''a_id'', INT')]\<rparr>)],
      db_no_columns = False,
      db_relations = [(''x'', [''b'']), (''a'', [''x'', ''b'']), (''b'', [''a''])]\<rparr>"

definition report_a :: trav where
  "report_a =
     \<lparr>out = [table_open ''a'',
             ''        '', relation_line ''N:1'' ''x'',
             ''        '', relation_line ''N:1'' ''b'',
             ''        '', relation_line ''1:1'' ''a'',
             table_close],
      route = [''x'', ''b'', ''a''], printed = True\<rparr>"

text \<open>The report of the origin \<open>b\<close> for the database \<open>db_cycle\<close>.\<close>

definition report_b :: trav where
  "report_b =
     \<lparr>out = [table_open ''b'',
             ''        '', relation_line ''N:M'' ''a'',
             ''        '', relation_line ''N:1'' ''x'',
             ''        '', relation_line ''1:1'' ''b'',
             table_close],
      route = [''a'', ''x'', ''b''], printed = True\<rparr>"

text \<open>\<^verbatim>\<open><root><a><a/></a></root>\<close>, the database after the walk of this document and
  \<^verbatim>\<open>flush\<close> in the default mode, and the report of the origin \<open>a\<close>.\<close>

definition doc_self :: element where
  "doc_self = Element ''root'' [] None [Element ''a'' [] None [Element ''a'' [] None []]]"

definition db_self :: Database where
  "db_self =
     \<lparr>db_etc = - 1, db_duplicity = False,
      db_entries = [(''a'', (Table_init ''a'')\<lparr>t_relations := [(''a'', 1)],
                                                t_keys := [(''a_id'', INT')]\<rparr>)],
      db_no_columns = False, db_relations = [(''a'', [''a''])]\<rparr>"

text \<open>A database with the one table \<open>a\<close>, which has no relations, after \<^verbatim>\<open>flush\<close>, and the
  report of \<open>a\<close>.\<close>

definition db_single :: Database where
  "db_single =
     \<lparr>db_etc = - 1, db_duplicity = False, db_entries = [(''a'', Table_init ''a'')],
      db_no_columns = False, db_relations = [(''a'', [])]\<rparr>"

definition report_single :: trav where
  "report_single = \<lparr>out = [table_open ''a'', table_close], route = [], printed = False\<rparr>"

definition report_self :: trav where
  "report_self =
     \<lparr>out = [table_open ''a'', ''        '', relation_line ''1:1'' ''a'', table_close],
      route = [''a''], printed = True\<rparr>"

section \<open>The type lattice\<close>

lemma get_data_type_not_narrower: "rank data_type \<le> rank (get_data_type data data_type val)"
  by (cases data_type; cases "indata_type data val") (simp_all add: get_data_type_def Let_def)

text \<open>
  C2. The claim: \<^verbatim>\<open>get_data_type\<close> returns a type that is at least the previous type and at
  least the type of the literal. The code does not: from the previous type INT and the
  literal \<^verbatim>\<open>1.5\<close>, which alone is a FLOAT, it returns INT. The third condition reads
  \<^verbatim>\<open>data_type == "FLOAT" and indata_type == "BIT" or indata_type == "INT" or indata_type == "FLOAT"\<close>,
  so it holds for every previous type when the literal is a FLOAT.
\<close>

theorem get_data_type_int_float_narrower:
  "indata_type ''1.5'' False = FLOAT \<and> get_data_type ''1.5'' INT' False = INT'
   \<and> rank (get_data_type ''1.5'' INT' False) < rank (indata_type ''1.5'' False)"
  by code_simp

text \<open>
  C5. The claim: the type that results from merging the literals of one column does not
  depend on their order. The code gives INT for \<^verbatim>\<open>2\<close> followed by \<^verbatim>\<open>1.5\<close> and FLOAT
  for \<^verbatim>\<open>1.5\<close> followed by \<^verbatim>\<open>2\<close>, by the merge of INT with a FLOAT literal of C2.
\<close>

theorem get_data_type_order_dependent:
  "foldl (\<lambda>data_type data. get_data_type data data_type False) BIT [''2'', ''1.5''] = INT'
   \<and> foldl (\<lambda>data_type data. get_data_type data data_type False) BIT [''1.5'', ''2''] = FLOAT
   \<and> map_sum id (\<lambda>db. columns db ''a'')
        (update_attributes (Database_init (- 1) False False) ''a'' [(''c'', ''2''), (''c'', ''1.5'')])
      = Inr (Some [(''c'', INT')])
   \<and> map_sum id (\<lambda>db. columns db ''a'')
        (update_attributes (Database_init (- 1) False False) ''a'' [(''c'', ''1.5''), (''c'', ''2'')])
      = Inr (Some [(''c'', FLOAT)])"
  by code_simp

text \<open>
  C3. The claim: the value type of a table never narrows when text is observed. The code
  narrows it from NTEXT to BIT when \<^verbatim>\<open>1\<close> is observed after \<^verbatim>\<open>hello\<close>:
  \<^verbatim>\<open>Table.update_value\<close> reads the previous type from the columns, under the key
  \<^verbatim>\<open>"value"\<close>, which no column ever has, and not from the value slot that it writes.
\<close>

theorem update_value_narrows:
  "value_of (update_value (Database_init (- 1) False False) ''a'' ''hello'') ''a''
     = Some (Some NTEXT)
   \<and> value_of (update_value (update_value (Database_init (- 1) False False) ''a'' ''hello'') ''a'' ''1'')
       ''a'' = Some (Some BIT)"
  by code_simp

section \<open>Validation\<close>

text \<open>
  C10. When the table of the first database has no value type, \<^verbatim>\<open>data_type_usable\<close>
  accepts every value type of the second database, also none, and the check of that
  table by \<^verbatim>\<open>is_subset\<close> is the check of its columns, followed by the other tables.
\<close>

theorem is_subset_value_unset:
  assumes "map_of (db_entries self) tname = Some own" and "t_value own = None"
  shows "data_type_usable (t_value own) candidate
         \<and> is_subset_entries self ((tname, table) # entries)
             = (columns_usable (t_columns own) (t_columns table) \<and> is_subset_entries self entries)"
  using assms by (simp add: data_type_usable_def)

theorem is_subset_value_unset_witness:
  "value_of db_without_value ''a'' = Some None \<and> value_of db_with_value ''a'' = Some (Some NTEXT)
   \<and> data_type_usable None (Some NTEXT) \<and> is_subset db_without_value db_with_value"
proof -
  have own: "map_of (db_entries db_without_value) ''a'' = Some (Table_init ''a'')"
    by code_simp
  have unset: "t_value (Table_init ''a'') = None"
    by (simp add: Table_init_def)
  have second: "db_entries db_with_value = [(''a'', (Table_init ''a'')\<lparr>t_value := Some NTEXT\<rparr>)]"
    by code_simp
  have cols: "columns_usable (t_columns (Table_init ''a'')) []"
    by simp
  have vals: "value_of db_without_value ''a'' = Some None \<and> value_of db_with_value ''a'' = Some (Some NTEXT)"
    by code_simp
  from is_subset_value_unset [OF own unset, of "Some NTEXT" "(Table_init ''a'')\<lparr>t_value := Some NTEXT\<rparr>" "[]"]
  show ?thesis using second cols vals by (simp add: is_subset_def unset Table_init_def)
qed

section \<open>What the tree walker keeps true\<close>

lemma get_data_type_attribute_not_ntext:
  "data_type \<noteq> NTEXT \<Longrightarrow> get_data_type data data_type False \<noteq> NTEXT"
  by (auto simp: get_data_type_def indata_type_def Let_def)

lemma set_dict_set: "set (dict_set d k v) \<subseteq> insert (k, v) (set d)"
  by (induction d k v rule: dict_set.induct) auto

lemma list_all_dict_set:
  "list_all P d \<Longrightarrow> P (k, v) \<Longrightarrow> list_all P (dict_set d k v)"
  using set_dict_set [of d k v] by (auto simp: list_all_iff)

lemma table_ok_init: "table_ok name (Table_init name)"
  by (simp add: table_ok_def Table_init_def)

lemma table_ok_entry: "db_ok db \<Longrightarrow> table_ok name (entry db name)"
  by (auto simp: db_ok_def entry_def table_ok_init list_all_iff split: option.splits
           dest!: map_of_SomeD)

lemma table_ok_update_value: "table_ok k t \<Longrightarrow> table_ok k (Table_update_value t data)"
  by (simp add: table_ok_def Table_update_value_def)

lemma table_ok_update_relations: "table_ok k t \<Longrightarrow> table_ok k (Table_update_relations t rels)"
  by (induction t rels rule: Table_update_relations.induct) (auto simp: table_ok_def)

lemma table_ok_update_attribute:
  assumes "table_ok k t" and "Table_update_attribute t column data = Inr t'"
  shows "table_ok k t'"
proof (cases "column = ''value''")
  case True
  with assms show ?thesis by (auto simp: Table_update_attribute_def table_ok_update_value)
next
  case False
  let ?prev = "case map_of (t_columns t) column of None \<Rightarrow> BIT | Some ty \<Rightarrow> ty"
  have "?prev \<noteq> NTEXT"
    using assms(1) by (auto simp: table_ok_def list_all_iff split: option.splits dest!: map_of_SomeD)
  then have "get_data_type data ?prev False \<noteq> NTEXT"
    by (rule get_data_type_attribute_not_ntext)
  with assms False show ?thesis
    by (auto simp: Table_update_attribute_def table_ok_def split: if_splits
             intro!: list_all_dict_set)
qed

lemma db_ok_init: "db_ok (Database_init etc duplicity no_columns)"
  by (simp add: db_ok_def Database_init_def)

lemma db_ok_update_value: "db_ok db \<Longrightarrow> db_ok (update_value db name data)"
  using table_ok_update_value [OF table_ok_entry, of db name data]
  by (auto simp: db_ok_def update_value_def intro!: list_all_dict_set)

lemma db_ok_update_relations: "db_ok db \<Longrightarrow> db_ok (update_relations db name rels)"
  using table_ok_update_relations [OF table_ok_entry, of db name rels]
  by (auto simp: db_ok_def update_relations_def intro!: list_all_dict_set)

lemma db_ok_update_attribute:
  "db_ok db \<Longrightarrow> update_attribute db name attribute data = Inr db' \<Longrightarrow> db_ok db'"
  using table_ok_update_attribute [OF table_ok_entry, of db name attribute data]
  by (auto simp: db_ok_def update_attribute_def split: if_splits sum.splits
           intro!: list_all_dict_set)

lemma no_columns_update_attribute:
  "update_attribute db name attribute data = Inr db' \<Longrightarrow> db_no_columns db' = db_no_columns db"
  by (auto simp: update_attribute_def split: if_splits sum.splits)

lemma update_attribute_error:
  "update_attribute db name attribute data = Inl e \<Longrightarrow> e = XTDNameError"
  by (auto simp: update_attribute_def Table_update_attribute_def split: if_splits sum.splits)

lemma update_attribute_collision:
  "db_ok db \<Longrightarrow> \<not> db_no_columns db \<Longrightarrow>
   update_attribute db name (''prk_'' @ name @ ''_id'') data = Inl XTDNameError"
  using table_ok_entry [of db name]
  by (simp add: update_attribute_def Table_update_attribute_def table_ok_def)

lemma update_attributes_ok:
  "db_ok db \<Longrightarrow> update_attributes db name items = Inr db' \<Longrightarrow>
   db_ok db' \<and> db_no_columns db' = db_no_columns db"
proof (induction items arbitrary: db)
  case Nil
  then show ?case by simp
next
  case (Cons item items)
  obtain cname data where item: "item = (cname, data)" by (cases item)
  from Cons.prems(2) obtain db1 where
    step: "update_attribute db name (lower cname) data = Inr db1" and
    rest: "update_attributes db1 name items = Inr db'"
    by (auto simp: item split: sum.splits)
  from db_ok_update_attribute [OF Cons.prems(1) step] have "db_ok db1" .
  from Cons.IH [OF this rest] no_columns_update_attribute [OF step] show ?case by simp
qed

lemma update_attributes_error: "update_attributes db name items = Inl e \<Longrightarrow> e = XTDNameError"
  by (induction db name items rule: update_attributes.induct)
     (auto split: sum.splits dest: update_attribute_error)

lemma update_attributes_collision:
  "db_ok db \<Longrightarrow> \<not> db_no_columns db \<Longrightarrow>
   list_ex (\<lambda>(cname, data). lower cname = ''prk_'' @ name @ ''_id'') items \<Longrightarrow>
   update_attributes db name items = Inl XTDNameError"
proof (induction items arbitrary: db)
  case Nil
  then show ?case by simp
next
  case (Cons item items)
  obtain cname data where item: "item = (cname, data)" by (cases item)
  show ?case
  proof (cases "update_attribute db name (lower cname) data")
    case (Inl e)
    then show ?thesis by (simp add: item update_attribute_error [OF Inl])
  next
    case (Inr db1)
    have ok: "db_ok db1" by (rule db_ok_update_attribute [OF Cons.prems(1) Inr])
    have nc: "\<not> db_no_columns db1"
      using no_columns_update_attribute [OF Inr] Cons.prems(2) by simp
    have "lower cname \<noteq> ''prk_'' @ name @ ''_id''"
      using update_attribute_collision [OF Cons.prems(1,2), of name data] Inr by auto
    with Cons.prems(3) have "list_ex (\<lambda>(cname, data). lower cname = ''prk_'' @ name @ ''_id'') items"
      by (simp add: item)
    from Cons.IH [OF ok nc this] Inr show ?thesis by (simp add: item)
  qed
qed

lemma db_no_columns_update_value [simp]:
  "db_no_columns (update_value db name data) = db_no_columns db"
  by (simp add: update_value_def)

lemma db_no_columns_update_relations [simp]:
  "db_no_columns (update_relations db name rels) = db_no_columns db"
  by (simp add: update_relations_def)

lemma walk_ok:
  "db_ok db \<Longrightarrow> xtd_database item db = Inr db' \<Longrightarrow>
     db_ok db' \<and> db_no_columns db' = db_no_columns db"
  "db_ok db \<Longrightarrow> xtd_children children info db = Inr (info', db') \<Longrightarrow>
     db_ok db' \<and> db_no_columns db' = db_no_columns db"
proof (induction item db and children info db arbitrary: db' and info' db'
       rule: xtd_database_xtd_children.induct)
  case (1 tag attrib content children db)
  from "1.prems"(2) obtain db1 info2 db2 where
    a: "update_attributes db (lower tag) attrib = Inr db1" and
    c: "xtd_children children []
          (case content of None \<Rightarrow> db1
           | Some t \<Rightarrow> if t \<noteq> [] \<and> \<not> isspace t then update_value db1 (lower tag) t else db1)
        = Inr (info2, db2)" and
    r: "db' = update_relations db2 (lower tag) info2"
    by (auto split: sum.splits)
  let ?dbv = "case content of None \<Rightarrow> db1
           | Some t \<Rightarrow> if t \<noteq> [] \<and> \<not> isspace t then update_value db1 (lower tag) t else db1"
  from update_attributes_ok [OF "1.prems"(1) a]
  have ok1: "db_ok db1" and nc1: "db_no_columns db1 = db_no_columns db" by simp_all
  have okv: "db_ok ?dbv" and ncv: "db_no_columns ?dbv = db_no_columns db"
    using ok1 nc1 by (auto split: option.splits intro: db_ok_update_value)
  from "1.IH" [OF a okv c] have "db_ok db2 \<and> db_no_columns db2 = db_no_columns ?dbv" .
  with ncv r show ?case by (simp add: db_ok_update_relations)
next
  case (2 info db)
  then show ?case by simp
next
  case (3 child children info db)
  from "3.prems"(2) obtain db1 where
    a: "xtd_database child db = Inr db1" and
    c: "xtd_children children
          (dict_set info (lower (el_tag child))
             ((case map_of info (lower (el_tag child)) of None \<Rightarrow> 0 | Some c \<Rightarrow> c) + 1)) db1
        = Inr (info', db')"
    by (auto split: sum.splits)
  from "3.IH"(1) [OF "3.prems"(1) a] have ok1: "db_ok db1" and nc1: "db_no_columns db1 = db_no_columns db"
    by simp_all
  from "3.IH"(2) [OF a ok1 c] nc1 show ?case by simp
qed

lemma walk_error:
  "xtd_database item db = Inl e \<Longrightarrow> e = XTDNameError"
  "xtd_children children info db = Inl e \<Longrightarrow> e = XTDNameError"
proof (induction item db and children info db rule: xtd_database_xtd_children.induct)
  case (1 tag attrib content children db)
  then show ?case
    by (auto split: sum.splits dest: update_attributes_error)
next
  case (2 info db)
  then show ?case by simp
next
  case (3 child children info db)
  then show ?case by (auto split: sum.splits)
qed

lemma walk_collision:
  "db_ok db \<Longrightarrow> \<not> db_no_columns db \<Longrightarrow> collides item \<Longrightarrow>
     xtd_database item db = Inl XTDNameError"
  "db_ok db \<Longrightarrow> \<not> db_no_columns db \<Longrightarrow> list_ex collides children \<Longrightarrow>
     xtd_children children info db = Inl XTDNameError"
proof (induction item db and children info db rule: xtd_database_xtd_children.induct)
  case (1 tag attrib content children db)
  show ?case
  proof (cases "update_attributes db (lower tag) attrib")
    case (Inl e)
    then show ?thesis by (simp add: update_attributes_error [OF Inl])
  next
    case (Inr db1)
    let ?dbv = "case content of None \<Rightarrow> db1
           | Some t \<Rightarrow> if t \<noteq> [] \<and> \<not> isspace t then update_value db1 (lower tag) t else db1"
    from update_attributes_ok [OF "1.prems"(1) Inr]
    have ok1: "db_ok db1" and nc1: "db_no_columns db1 = db_no_columns db" by simp_all
    have okv: "db_ok ?dbv" and ncv: "\<not> db_no_columns ?dbv"
      using ok1 nc1 "1.prems"(2) by (auto split: option.splits intro: db_ok_update_value)
    have "\<not> list_ex (\<lambda>(cname, data). lower cname = ''prk_'' @ lower tag @ ''_id'') attrib"
      using update_attributes_collision [OF "1.prems"(1,2), of "lower tag" attrib] Inr by auto
    with "1.prems"(3) have "list_ex collides children" by simp
    from "1.IH" [OF Inr okv ncv this] Inr show ?thesis by simp
  qed
next
  case (2 info db)
  then show ?case by simp
next
  case (3 child children info db)
  show ?case
  proof (cases "xtd_database child db")
    case (Inl e)
    then show ?thesis by (simp add: walk_error(1) [OF Inl])
  next
    case (Inr db1)
    from walk_ok(1) [OF "3.prems"(1) Inr] "3.prems"(2)
    have ok1: "db_ok db1" and nc1: "\<not> db_no_columns db1" by simp_all
    have "\<not> collides child"
      using "3.IH"(1) [OF "3.prems"(1,2)] Inr by auto
    with "3.prems"(3) have "list_ex collides children" by simp
    from "3.IH"(2) [OF Inr ok1 nc1 this] Inr show ?thesis by simp
  qed
qed

lemma xtd_items_ok:
  "db_ok db \<Longrightarrow> xtd_items items db = Inr db' \<Longrightarrow> db_ok db'"
proof (induction items arbitrary: db)
  case Nil
  then show ?case by simp
next
  case (Cons item items)
  from Cons.prems(2) obtain db1 where
    a: "xtd_database item db = Inr db1" and b: "xtd_items items db1 = Inr db'"
    by (auto split: sum.splits)
  from walk_ok(1) [OF Cons.prems(1) a] Cons.IH [OF _ b] show ?case by simp
qed

lemma xtd_items_collision:
  "db_ok db \<Longrightarrow> \<not> db_no_columns db \<Longrightarrow> list_ex collides items \<Longrightarrow>
   xtd_items items db = Inl XTDNameError"
proof (induction items arbitrary: db)
  case Nil
  then show ?case by simp
next
  case (Cons item items)
  show ?case
  proof (cases "xtd_database item db")
    case (Inl e)
    then show ?thesis by (simp add: walk_error(1) [OF Inl])
  next
    case (Inr db1)
    from walk_ok(1) [OF Cons.prems(1) Inr] Cons.prems(2)
    have ok1: "db_ok db1" and nc1: "\<not> db_no_columns db1" by simp_all
    have "\<not> collides item"
      using walk_collision(1) [OF Cons.prems(1,2)] Inr by auto
    with Cons.prems(3) have "list_ex collides items" by simp
    from Cons.IH [OF ok1 nc1 this] Inr show ?thesis by simp
  qed
qed

lemma db_ok_no_ntext: "db_ok db \<Longrightarrow> no_ntext_columns db"
  by (auto simp: db_ok_def no_ntext_columns_def table_ok_def list_all_iff)

section \<open>Attributes\<close>

text \<open>
  C4, the claim as stated: NTEXT is never produced from an attribute value, for any
  column or value slot. It fails for an attribute named \<^verbatim>\<open>value\<close>, which
  \<^verbatim>\<open>Table.update_attribute\<close> passes to \<^verbatim>\<open>update_value\<close>: the document
  \<^verbatim>\<open><root><a value="some text"/></root>\<close> has no text, and the value type of \<open>a\<close> is NTEXT.
\<close>

theorem value_attribute_gives_ntext:
  "map_sum id (\<lambda>db. value_of db ''a'')
     (xtd_items (el_children doc_value_attr) (Database_init (- 1) False False))
   = Inr (Some (Some NTEXT))"
  by code_simp

text \<open>
  C4, amended: for every document and every configuration, no attribute column of any
  table has the type NTEXT after the walk, and merging an attribute value into a type
  other than NTEXT never gives NTEXT.
\<close>

theorem attribute_columns_never_ntext:
  assumes "xtd_items items (Database_init etc duplicity no_columns) = Inr db"
  shows "no_ntext_columns db
         \<and> (\<forall>data data_type. data_type \<noteq> NTEXT \<longrightarrow> get_data_type data data_type False \<noteq> NTEXT)"
  using xtd_items_ok [OF db_ok_init assms] db_ok_no_ntext get_data_type_attribute_not_ntext
  by blast

theorem attribute_columns_never_ntext_witness:
  "map_sum id (\<lambda>db. (columns db ''a'', value_of db ''a''))
     (xtd_items (el_children doc_text_attr) (Database_init (- 1) False False))
   = Inr (Some [(''c'', NVARCHAR)], Some (Some NTEXT))
   \<and> no_ntext_columns (projr (xtd_items (el_children doc_text_attr) (Database_init (- 1) False False)))
   \<and> get_data_type ''some text'' NVARCHAR False \<noteq> NTEXT"
proof -
  let ?r = "xtd_items (el_children doc_text_attr) (Database_init (- 1) False False)"
  have "\<not> isl ?r" by code_simp
  then have walk: "?r = Inr (projr ?r)" by (cases ?r) simp_all
  have result: "map_sum id (\<lambda>db. (columns db ''a'', value_of db ''a'')) ?r
                  = Inr (Some [(''c'', NVARCHAR)], Some (Some NTEXT))"
    by code_simp
  from attribute_columns_never_ntext [OF walk] result show ?thesis by simp
qed

text \<open>
  C9, the claim as stated: in every run configuration, an attribute whose name in lower
  case is \<^verbatim>\<open>prk_<entity>_id\<close> raises the naming error. It fails when columns are switched
  off (option \<^verbatim>\<open>-a\<close>): \<^verbatim>\<open>Database.update_attribute\<close> then ignores every attribute, and the
  document \<^verbatim>\<open><root><A PRK_a_ID="7"/></root>\<close> is printed without an error.
\<close>

theorem no_columns_hides_collision:
  "list_ex collides (el_children doc_prk)
   \<and> xtd 0 doc_prk [] doc_prk (param_default\<lparr>p_a := True\<rparr>)
       = Some (Inr [''CREATE TABLE a('' @ nl @ ''   prk_a_id INT PRIMARY KEY'', nl @ '');'' @ nl @ nl])"
  by code_simp

text \<open>
  C9, amended: when columns are not switched off, a document in which some element has
  an attribute whose name in lower case is \<^verbatim>\<open>prk_<entity>_id\<close>, for the element's tag in
  lower case, makes \<^verbatim>\<open>xtd\<close> raise the naming error, with the output file as it was
  before the call: nothing is written.
\<close>

theorem xtd_primary_key_collision:
  assumes "\<not> p_a param" and "list_ex collides (el_children fin)"
  shows "xtd fuel fin fout fval param = Some (Inl (XTDNameError, fout))"
proof -
  let ?db0 = "Database_init (case p_etc param of None \<Rightarrow> - 1 | Some n \<Rightarrow> n) (p_b param) (p_a param)"
  have "\<not> db_no_columns ?db0" using assms(1) by (simp add: Database_init_def)
  from xtd_items_collision [OF db_ok_init this assms(2)]
  show ?thesis by (simp add: xtd_def)
qed

theorem xtd_primary_key_collision_witness:
  "\<not> p_a param_default \<and> list_ex collides (el_children doc_prk)
   \<and> xtd 0 doc_prk [] doc_prk param_default = Some (Inl (XTDNameError, []))"
proof -
  have a: "\<not> p_a param_default" by (simp add: param_default_def)
  have b: "list_ex collides (el_children doc_prk)" by code_simp
  from xtd_primary_key_collision [OF a b, of 0 "[]" doc_prk] a b show ?thesis by simp
qed

section \<open>Relation finalization\<close>

lemma map_of_dict_set: "map_of (dict_set d k v) k' = (if k' = k then Some v else map_of d k')"
  by (induction d k v rule: dict_set.induct) auto

lemma dict_keys_dict_set: "set (dict_keys (dict_set d k v)) = insert k (set (dict_keys d))"
  by (induction d k v rule: dict_set.induct) (auto simp: dict_keys_def)

lemma keys_grow_refl: "keys_grow k db db {}"
  by (simp add: keys_grow_def split: option.splits)

lemma keys_grow_trans:
  "keys_grow k db db1 A \<Longrightarrow> keys_grow k db1 db2 B \<Longrightarrow> keys_grow k db db2 (A \<union> B)"
  by (auto simp: keys_grow_def split: option.splits)

lemma relations_grow_refl: "relations_grow db db"
  by (simp add: relations_grow_def)

lemma relations_grow_trans:
  "relations_grow db db1 \<Longrightarrow> relations_grow db1 db2 \<Longrightarrow> relations_grow db db2"
  unfolding relations_grow_def by (meson subset_trans)

lemma flush_relation_duplicity:
  assumes "db_duplicity db" and "flush_relation db tkey name count = Inr db'"
  obtains table s where
    "map_of (db_entries db) tkey = Some table"
    "map_of (db_relations db) (t_name table) = Some s"
    "db' = db\<lparr>db_entries := dict_set (db_entries db) tkey
                 (table\<lparr>t_keys := dict_set (t_keys table) (name @ ''_id'') INT'\<rparr>),
               db_relations := dict_set (db_relations db) (t_name table) (set_add s name)\<rparr>"
  using assms
  by (auto simp: flush_relation_def Table_set_key_def relations_add_def Let_def
           split: option.splits if_splits sum.splits)

lemma flush_relation_grows:
  assumes "db_duplicity db" and "flush_relation db tkey name count = Inr db'"
  shows "keys_grow k db db' (if k = tkey then {name @ ''_id''} else {})"
    and "relations_grow db db'"
    and "\<exists>table s. map_of (db_entries db) tkey = Some table
           \<and> map_of (db_relations db') (t_name table) = Some s \<and> name \<in> set s"
proof -
  from assms obtain table s where
    t: "map_of (db_entries db) tkey = Some table" and
    s: "map_of (db_relations db) (t_name table) = Some s" and
    db': "db' = db\<lparr>db_entries := dict_set (db_entries db) tkey
                 (table\<lparr>t_keys := dict_set (t_keys table) (name @ ''_id'') INT'\<rparr>),
               db_relations := dict_set (db_relations db) (t_name table) (set_add s name)\<rparr>"
    by (rule flush_relation_duplicity)
  show "keys_grow k db db' (if k = tkey then {name @ ''_id''} else {})"
    using t by (auto simp: keys_grow_def db' map_of_dict_set dict_keys_dict_set split: option.splits)
  show "relations_grow db db'"
    using s by (auto simp: relations_grow_def db' map_of_dict_set set_add_def)
  show "\<exists>table s. map_of (db_entries db) tkey = Some table
           \<and> map_of (db_relations db') (t_name table) = Some s \<and> name \<in> set s"
    using t by (auto simp: db' map_of_dict_set set_add_def)
qed

lemma keys_grow_duplicity: "keys_grow k db db' A \<Longrightarrow> db_duplicity db' = db_duplicity db"
  by (simp add: keys_grow_def)

lemma flush_table_grows:
  assumes "db_duplicity db" and "flush_table db tkey rels = Inr db'"
  shows "keys_grow k db db' (if k = tkey then (\<lambda>(n, c). n @ ''_id'') ` set rels else {})
         \<and> relations_grow db db'
         \<and> (\<forall>table. map_of (db_entries db) tkey = Some table \<longrightarrow>
              (\<forall>(n, c) \<in> set rels. \<exists>s. map_of (db_relations db') (t_name table) = Some s \<and> n \<in> set s))"
  using assms
proof (induction rels arbitrary: db)
  case Nil
  then show ?case by (simp add: keys_grow_refl relations_grow_refl)
next
  case (Cons rel rels)
  obtain name count where rel: "rel = (name, count)" by (cases rel)
  from Cons.prems(2) obtain db1 where
    step: "flush_relation db tkey name count = Inr db1" and
    rest: "flush_table db1 tkey rels = Inr db'"
    by (auto simp: rel split: sum.splits)
  note s = flush_relation_grows [OF Cons.prems(1) step]
  have dup1: "db_duplicity db1"
    using s(1) [of tkey] Cons.prems(1) by (simp add: keys_grow_def)
  note ih = Cons.IH [OF dup1 rest]
  have kg: "keys_grow k db db' (if k = tkey then (\<lambda>(n, c). n @ ''_id'') ` set (rel # rels) else {})"
    using keys_grow_trans [OF s(1) [of k] ih [THEN conjunct1]] by (auto simp: rel)
  have rg: "relations_grow db db'"
    using relations_grow_trans [OF s(2) ih [THEN conjunct2, THEN conjunct1]] .
  have "\<exists>s. map_of (db_relations db') (t_name table) = Some s \<and> n \<in> set s"
    if t: "map_of (db_entries db) tkey = Some table" and n: "(n, c) \<in> set (rel # rels)" for table n c
  proof (cases "(n, c) \<in> set rels")
    case True
    from s(1) [of tkey] t obtain t1 where
      t1: "map_of (db_entries db1) tkey = Some t1" "t_name t1 = t_name table"
      by (auto simp: keys_grow_def)
    from ih t1 True show ?thesis by fastforce
  next
    case False
    with n have "n = name" by (simp add: rel)
    with s(3) t obtain s1 where "map_of (db_relations db1) (t_name table) = Some s1" "n \<in> set s1"
      by auto
    with ih [THEN conjunct2, THEN conjunct1] show ?thesis
      unfolding relations_grow_def by blast
  qed
  with kg rg show ?case by blast
qed

lemma flush_tables_grows:
  assumes "db_duplicity db" and "flush_tables db tkeys = Inr db'"
  shows "keys_grow k db db'
           (if k \<in> set tkeys then
              (case map_of (db_entries db) k of
                 None \<Rightarrow> {}
               | Some t \<Rightarrow> (\<lambda>(n, c). n @ ''_id'') ` set (t_relations t))
            else {})
         \<and> relations_grow db db'
         \<and> (\<forall>tkey \<in> set tkeys. \<forall>table. map_of (db_entries db) tkey = Some table \<longrightarrow>
              (\<forall>(n, c) \<in> set (t_relations table).
                 \<exists>s. map_of (db_relations db') (t_name table) = Some s \<and> n \<in> set s))"
  using assms
proof (induction tkeys arbitrary: db)
  case Nil
  then show ?case by (simp add: keys_grow_refl relations_grow_refl)
next
  case (Cons tkey tkeys)
  from Cons.prems(2) obtain table db1 where
    t: "map_of (db_entries db) tkey = Some table" and
    step: "flush_table db tkey (t_relations table) = Inr db1" and
    rest: "flush_tables db1 tkeys = Inr db'"
    by (auto split: option.splits sum.splits)
  note s = flush_table_grows [OF Cons.prems(1) step]
  have dup1: "db_duplicity db1"
    using s [of tkey] Cons.prems(1) by (simp add: keys_grow_def)
  note ih = Cons.IH [OF dup1 rest]
  have same: "map_of (db_entries db1) j = Some t1 \<Longrightarrow>
              \<exists>t0. map_of (db_entries db) j = Some t0 \<and> t_relations t1 = t_relations t0
                    \<and> t_name t1 = t_name t0" for j t1
    using s [of j] by (auto simp: keys_grow_def split: option.splits)
  have same': "map_of (db_entries db) j = Some t0 \<Longrightarrow>
              \<exists>t1. map_of (db_entries db1) j = Some t1 \<and> t_relations t1 = t_relations t0
                    \<and> t_name t1 = t_name t0" for j t0
    using s [of j] by (auto simp: keys_grow_def split: option.splits)
  have none: "map_of (db_entries db) j = None \<Longrightarrow> map_of (db_entries db1) j = None" for j
    using s [of j] by (auto simp: keys_grow_def split: option.splits)
  let ?F = "\<lambda>d. case map_of (db_entries d) k of
                 None \<Rightarrow> {}
               | Some t \<Rightarrow> (\<lambda>(n, c). n @ ''_id'') ` set (t_relations t)"
  have F: "?F db1 = ?F db"
  proof (cases "map_of (db_entries db) k")
    case None
    with none [of k] show ?thesis by simp
  next
    case (Some t0)
    with same' [of k t0] show ?thesis by auto
  qed
  have "keys_grow k db db'
          ((if k = tkey then (\<lambda>(n, c). n @ ''_id'') ` set (t_relations table) else {})
           \<union> (if k \<in> set tkeys then ?F db1 else {}))"
    using keys_grow_trans [OF s [of k, THEN conjunct1] ih [THEN conjunct1]] .
  moreover have "(if k = tkey then (\<lambda>(n, c). n @ ''_id'') ` set (t_relations table) else {})
           \<union> (if k \<in> set tkeys then ?F db1 else {})
         = (if k \<in> set (tkey # tkeys) then ?F db else {})"
    unfolding F using t by auto
  ultimately have kg: "keys_grow k db db' (if k \<in> set (tkey # tkeys) then ?F db else {})"
    by simp
  have rg: "relations_grow db db'"
    using relations_grow_trans [OF s [of k, THEN conjunct2, THEN conjunct1]
            ih [THEN conjunct2, THEN conjunct1]] .
  have "\<exists>s. map_of (db_relations db') (t_name tab) = Some s \<and> n \<in> set s"
    if j: "j \<in> set (tkey # tkeys)" and tab: "map_of (db_entries db) j = Some tab"
      and n: "(n, c) \<in> set (t_relations tab)" for j tab n c
  proof (cases "j \<in> set tkeys")
    case True
    from same' [OF tab] obtain t1 where
      t1: "map_of (db_entries db1) j = Some t1" "t_relations t1 = t_relations tab"
          "t_name t1 = t_name tab" by blast
    from ih True t1 n show ?thesis by fastforce
  next
    case False
    with j have "j = tkey" by simp
    with tab t have "tab = table" by simp
    with s [of k] t n obtain s1 where
      "map_of (db_relations db1) (t_name tab) = Some s1" "n \<in> set s1" by fastforce
    with ih [THEN conjunct2, THEN conjunct1] show ?thesis
      unfolding relations_grow_def by blast
  qed
  with kg rg show ?case by blast
qed

text \<open>
  C1, the claim as stated: in duplicate-keys mode the foreign key of a relation is added
  to the child and refers to the parent. In the document
  \<^verbatim>\<open><root><a><b/><b/></a></root>\<close> the parent \<open>a\<close> gets the key \<^verbatim>\<open>b_id\<close>, and the child \<open>b\<close>
  gets no key.
\<close>

theorem flush_duplicity_child_gets_no_key:
  "xtd_items (el_children doc_two_children) (Database_init (- 1) True False) = Inr db_two_children
   \<and> map_sum id (\<lambda>db. (keys db ''a'', keys db ''b'')) (flush db_two_children)
       = Inr (Some [''b_id''], Some [])"
  by code_simp

text \<open>
  C1, amended: in duplicate-keys mode, when \<^verbatim>\<open>flush\<close> returns, the foreign keys of every
  table are the keys it had and the key \<^verbatim>\<open><child>_id\<close> of each of its own child tags,
  whatever the count: the key of a relation is added to the parent and refers to the
  child. Each child tag is also in the relations of the parent's name.
\<close>

theorem flush_duplicity_key_on_parent:
  assumes "db_duplicity db" and "flush db = Inr db'"
    and "map_of (db_entries db) parent = Some table"
  shows "\<exists>table'. map_of (db_entries db') parent = Some table'
           \<and> set (dict_keys (t_keys table'))
               = set (dict_keys (t_keys table)) \<union> (\<lambda>(child, count). child @ ''_id'') ` set (t_relations table)
           \<and> (\<forall>(child, count) \<in> set (t_relations table).
                 \<exists>s. map_of (db_relations db') (t_name table) = Some s \<and> child \<in> set s)"
proof -
  let ?db0 = "db\<lparr>db_relations := init_relations [] (db_entries db)\<rparr>"
  have run: "flush_tables ?db0 (dict_keys (db_entries db)) = Inr db'"
    using assms(2) by (simp add: flush_def)
  have dup: "db_duplicity ?db0" using assms(1) by simp
  have mem: "parent \<in> set (dict_keys (db_entries db))"
    using map_of_SomeD [OF assms(3)] by (force simp: dict_keys_def)
  from flush_tables_grows [OF dup run, of parent] mem assms(3)
  show ?thesis by (auto simp: keys_grow_def)
qed

theorem flush_duplicity_key_on_parent_witness:
  "db_duplicity db_two_children
   \<and> map_of (db_entries db_two_children) ''a'' = Some ((Table_init ''a'')\<lparr>t_relations := [(''b'', 2)]\<rparr>)
   \<and> \<not> isl (flush db_two_children)
   \<and> set (the (keys (projr (flush db_two_children)) ''a'')) = {''b_id''}
   \<and> (\<exists>s. map_of (db_relations (projr (flush db_two_children))) ''a'' = Some s \<and> ''b'' \<in> set s)"
proof -
  let ?table = "(Table_init ''a'')\<lparr>t_relations := [(''b'', 2)]\<rparr>"
  have dup: "db_duplicity db_two_children" by code_simp
  have ok: "\<not> isl (flush db_two_children)" by code_simp
  then obtain db' where run: "flush db_two_children = Inr db'"
    by (cases "flush db_two_children") simp_all
  have parent: "map_of (db_entries db_two_children) ''a'' = Some ?table" by code_simp
  from flush_duplicity_key_on_parent [OF dup run parent]
  obtain table' where
    t': "map_of (db_entries db') ''a'' = Some table'" and
    k': "set (dict_keys (t_keys table'))
           = set (dict_keys (t_keys ?table)) \<union> (\<lambda>(child, count). child @ ''_id'') ` set (t_relations ?table)" and
    r': "\<forall>(child, count) \<in> set (t_relations ?table).
           \<exists>s. map_of (db_relations db') (t_name ?table) = Some s \<and> child \<in> set s"
    by blast
  have a: "set (the (keys db' ''a'')) = {''b_id''}"
    using k' by (simp add: keys_def t' Table_init_def dict_keys_def)
  have b: "\<exists>s. map_of (db_relations db') ''a'' = Some s \<and> ''b'' \<in> set s"
    using r' by (simp add: Table_init_def)
  from dup ok parent a b show ?thesis by (simp add: run)
qed

section \<open>The traversal keeps its invariants\<close>

lemma trav_invD:
  assumes "trav_inv pre backward toriginal I"
  shows "I st \<Longrightarrow> \<not> printed st \<Longrightarrow> I (print_origin st toriginal)"
    and "I st \<Longrightarrow> tname_to \<notin> set (route st) \<Longrightarrow> pre tname_to st \<Longrightarrow>
         relation_type \<in> set (if backward then [''N:M'', ''N:1'', ''1:N''] else [''N:M'', ''N:1'']) \<Longrightarrow>
         I (st\<lparr>out := print_relation (out st) relation_type tname_to,
               route := route st @ [tname_to]\<rparr>)"
    and "backward \<Longrightarrow> I st \<Longrightarrow> tname_to \<notin> set (route st) \<Longrightarrow> pre tname_to st \<Longrightarrow>
         I (st\<lparr>route := route st @ [tname_to]\<rparr>)"
  using assms unfolding trav_inv_def by blast+

lemma trav_inv_pre:
  "trav_inv pre backward toriginal I \<Longrightarrow> (table = toriginal \<longrightarrow> printed st) \<Longrightarrow> pre table st"
  unfolding trav_inv_def by blast

lemma check_keys_inv:
  assumes inv: "trav_inv pre backward toriginal I"
    and call: "\<And>table st st'. I st \<Longrightarrow> pre table st \<Longrightarrow>
                 call table st = Some (Inr st') \<Longrightarrow> I st'"
  shows "I st \<Longrightarrow> check_keys call toriginal tables st = Some (Inr st') \<Longrightarrow> I st'"
proof (induction tables arbitrary: st)
  case Nil
  then show ?case by simp
next
  case (Cons table tables)
  show ?case
  proof (cases "table = toriginal \<and> \<not> printed st")
    case True
    with Cons.prems(1) have "I (print_origin st table)" by (simp add: trav_invD(1) [OF inv])
    with Cons.IH [of "print_origin st table"] Cons.prems(2) True show ?thesis by simp
  next
    case False
    show ?thesis
    proof (cases "table \<notin> set (route st)")
      case True
      with False Cons.prems(2) obtain st1 where
        c: "call table st = Some (Inr st1)" and
        r: "check_keys call toriginal tables st1 = Some (Inr st')"
        by (auto split: option.splits sum.splits if_splits)
      from False have "pre table st" by (intro trav_inv_pre [OF inv]) blast
      from call [OF Cons.prems(1) this c] have "I st1" .
      from Cons.IH [OF this r] show ?thesis .
    next
      case nin: False
      with False Cons.prems(2) have "check_keys call toriginal tables st = Some (Inr st')"
        by (auto split: if_splits)
      from Cons.IH [OF Cons.prems(1) this] show ?thesis .
    qed
  qed
qed

lemma check_refs_inv:
  assumes inv: "trav_inv pre backward toriginal I"
    and call: "\<And>table st st'. I st \<Longrightarrow> pre table st \<Longrightarrow>
                 call table st = Some (Inr st') \<Longrightarrow> I st'"
  shows "I st \<Longrightarrow> check_refs call db toriginal tname_to tables st = Some (Inr st') \<Longrightarrow> I st'"
proof (induction tables arbitrary: st)
  case Nil
  then show ?case by simp
next
  case (Cons table tables)
  from Cons.prems(2) obtain rels where rels: "map_of (db_relations db) table = Some rels"
    by (auto split: option.splits)
  show ?case
  proof (cases "tname_to \<in> set rels")
    case False
    with rels Cons.prems(2) have "check_refs call db toriginal tname_to tables st = Some (Inr st')"
      by simp
    from Cons.IH [OF Cons.prems(1) this] show ?thesis .
  next
    case True
    let ?st1 = "if table = toriginal \<and> \<not> printed st then print_origin st table else st"
    have i1: "I ?st1" using Cons.prems(1) by (simp add: trav_invD(1) [OF inv])
    show ?thesis
    proof (cases "table \<noteq> toriginal \<and> table \<notin> set (route ?st1)")
      case c: True
      with True rels Cons.prems(2) obtain st2 where
        c2: "call table ?st1 = Some (Inr st2)" and
        r: "check_refs call db toriginal tname_to tables st2 = Some (Inr st')"
        by (auto simp: Let_def split: option.splits sum.splits if_splits)
      from c have "pre table ?st1" by (intro trav_inv_pre [OF inv]) blast
      from call [OF i1 this c2] have "I st2" .
      from Cons.IH [OF this r] show ?thesis .
    next
      case False
      with True rels Cons.prems(2)
      have "check_refs call db toriginal tname_to tables ?st1 = Some (Inr st')"
        by (auto simp: Let_def split: if_splits)
      from Cons.IH [OF i1 this] show ?thesis .
    qed
  qed
qed

lemma visit_inv:
  assumes inv: "trav_inv pre backward toriginal I"
    and self: "\<And>tname_from table rel st st'. rel = rel_keys \<or> rel = rel_refs \<Longrightarrow>
                 I st \<Longrightarrow> pre table st \<Longrightarrow>
                 self tname_from table rel st = Some (Inr st') \<Longrightarrow> I st'"
    and start: "I (st\<lparr>route := route st @ [tname_to]\<rparr>)"
    and run: "visit self db toriginal tname_to rel_keys rel_refs st = Some (Inr st')"
  shows "I st'"
proof -
  let ?st1 = "st\<lparr>route := route st @ [tname_to]\<rparr>"
  from run obtain rels st2 where
    k: "check_keys (\<lambda>table. self tname_to table rel_keys) toriginal rels ?st1 = Some (Inr st2)" and
    r: "check_refs (\<lambda>table. self tname_to table rel_refs) db toriginal tname_to
          (dict_keys (db_entries db)) st2 = Some (Inr st')"
    by (auto simp: visit_def Let_def split: option.splits sum.splits)
  have "I st2"
    by (rule check_keys_inv [OF inv _ start k]) (blast intro: self)
  show ?thesis
    by (rule check_refs_inv [OF inv _ \<open>I st2\<close> r]) (blast intro: self)
qed

lemma print_tablerel_inv:
  assumes inv: "trav_inv pre backward toriginal I"
  shows "I st \<Longrightarrow> pre tname_to st \<Longrightarrow> (rel = 1 \<longrightarrow> backward) \<Longrightarrow>
         print_tablerel fuel db toriginal tname_from tname_to rel st = Some (Inr st') \<Longrightarrow> I st'"
proof (induction fuel arbitrary: tname_from tname_to rel st st')
  case 0
  then show ?case by simp
next
  case (Suc fuel)
  note self = Suc.IH
  note I = Suc.prems(1) and pre = Suc.prems(2) and bk = Suc.prems(3) and run = Suc.prems(4)
  consider (r0) "rel = 0" | (r1) "rel = 1" | (r2) "rel = 2" | (other) "rel \<noteq> 0" "rel \<noteq> 1" "rel \<noteq> 2"
    by blast
  then show ?case
  proof cases
    case r0
    from run r0 obtain rels_from where
      f: "map_of (db_relations db) tname_from = Some rels_from"
      by (auto split: option.splits)
    show ?thesis
    proof (cases "tname_to \<in> set rels_from \<and> tname_to \<notin> set (route st)")
      case False
      with run r0 f I show ?thesis by auto
    next
      case True
      with run r0 f obtain rels_to where
        t: "map_of (db_relations db) tname_to = Some rels_to"
        by (auto split: option.splits)
      let ?ty = "if tname_from \<in> set rels_to then ''N:M'' else ''N:1''"
      let ?st = "st\<lparr>out := print_relation (out st) ?ty tname_to\<rparr>"
      from run r0 f t True
      have v: "visit (print_tablerel fuel db toriginal) db toriginal tname_to 0 2 ?st = Some (Inr st')"
        by simp
      have "I (st\<lparr>out := print_relation (out st) ?ty tname_to, route := route st @ [tname_to]\<rparr>)"
        using trav_invD(2) [OF inv I _ pre, of ?ty] True by simp
      then have start: "I (?st\<lparr>route := route ?st @ [tname_to]\<rparr>)" by simp
      show ?thesis
      proof (rule visit_inv [OF inv _ start v])
        fix tname_from table rel' s s'
        assume r: "rel' = 0 \<or> rel' = 2"
          and a: "I s" "pre table s"
            "print_tablerel fuel db toriginal tname_from table rel' s = Some (Inr s')"
        from r have "rel' = 1 \<longrightarrow> backward" by auto
        from self [OF a(1,2) this a(3)] show "I s'" .
      qed
    qed
  next
    case r1
    from run r1 obtain rels_to where
      t: "map_of (db_relations db) tname_to = Some rels_to"
      by (auto split: option.splits)
    show ?thesis
    proof (cases "tname_from \<in> set rels_to \<and> tname_to \<notin> set (route st)")
      case False
      with run r1 t I show ?thesis by auto
    next
      case True
      with run r1 t obtain rels_from where
        f: "map_of (db_relations db) tname_from = Some rels_from"
        by (auto split: option.splits)
      let ?st = "if tname_to \<in> set rels_from then
                   (if tname_from \<noteq> toriginal then
                      st\<lparr>out := print_relation (out st) ''N:M'' tname_to\<rparr>
                    else st)
                 else st\<lparr>out := print_relation (out st) ''1:N'' tname_to\<rparr>"
      from run r1 f t True
      have v: "visit (print_tablerel fuel db toriginal) db toriginal tname_to 2 1 ?st = Some (Inr st')"
        by simp
      from bk r1 have b: "backward" by simp
      have start: "I (?st\<lparr>route := route ?st @ [tname_to]\<rparr>)"
        using trav_invD(2) [OF inv I _ pre, of "''N:M''"] trav_invD(2) [OF inv I _ pre, of "''1:N''"]
          trav_invD(3) [OF inv b I _ pre] True b by simp
      show ?thesis
      proof (rule visit_inv [OF inv _ start v])
        fix tname_from table rel' s s'
        assume r: "rel' = 2 \<or> rel' = 1"
          and a: "I s" "pre table s"
            "print_tablerel fuel db toriginal tname_from table rel' s = Some (Inr s')"
        from r bk r1 have "rel' = 1 \<longrightarrow> backward" by auto
        from self [OF a(1,2) this a(3)] show "I s'" .
      qed
    qed
  next
    case r2
    show ?thesis
    proof (cases "tname_to \<notin> set (route st) \<and> tname_to \<noteq> toriginal")
      case False
      with run r2 I show ?thesis by auto
    next
      case True
      let ?st = "st\<lparr>out := print_relation (out st) ''N:M'' tname_to\<rparr>"
      from run r2 True
      have v: "visit (print_tablerel fuel db toriginal) db toriginal tname_to 2 2 ?st = Some (Inr st')"
        by simp
      have start: "I (?st\<lparr>route := route ?st @ [tname_to]\<rparr>)"
        using trav_invD(2) [OF inv I _ pre, of "''N:M''"] True by simp
      show ?thesis
      proof (rule visit_inv [OF inv _ start v])
        fix tname_from table rel' s s'
        assume r: "rel' = 2 \<or> rel' = 2"
          and a: "I s" "pre table s"
            "print_tablerel fuel db toriginal tname_from table rel' s = Some (Inr s')"
        from r have "rel' = 1 \<longrightarrow> backward" by auto
        from self [OF a(1,2) this a(3)] show "I s'" .
      qed
    qed
  next
    case other
    with run I show ?thesis by simp
  qed
qed

lemma xmlrel_forward_inv:
  assumes inv: "trav_inv pre backward table1 I"
  shows "I st \<Longrightarrow> xmlrel_forward fuel db table1 tables st = Some (Inr st') \<Longrightarrow> I st'"
proof (induction tables arbitrary: st)
  case Nil
  then show ?case by simp
next
  case (Cons table2 tables)
  show ?case
  proof (cases "table2 \<noteq> table1")
    case True
    with Cons.prems(2) obtain st1 where
      c: "print_tablerel fuel db table1 table1 table2 0 st = Some (Inr st1)" and
      r: "xmlrel_forward fuel db table1 tables st1 = Some (Inr st')"
      by (auto split: option.splits sum.splits)
    from True have "pre table2 st" by (intro trav_inv_pre [OF inv]) blast
    from print_tablerel_inv [OF inv Cons.prems(1) this _ c] have "I st1" by simp
    from Cons.IH [OF this r] show ?thesis .
  next
    case False
    with Cons.prems(2) have "xmlrel_forward fuel db table1 tables st = Some (Inr st')" by simp
    from Cons.IH [OF Cons.prems(1) this] show ?thesis .
  qed
qed

lemma xmlrel_backward_inv:
  assumes inv: "trav_inv pre True table1 I"
  shows "I st \<Longrightarrow> xmlrel_backward fuel db table1 tables st = Some (Inr st') \<Longrightarrow> I st'"
proof (induction tables arbitrary: st)
  case Nil
  then show ?case by simp
next
  case (Cons table2 tables)
  from Cons.prems(2) obtain rels where rels: "map_of (db_relations db) table2 = Some rels"
    by (auto split: option.splits)
  show ?case
  proof (cases "table1 \<in> set rels")
    case False
    with rels Cons.prems(2) have "xmlrel_backward fuel db table1 tables st = Some (Inr st')"
      by simp
    from Cons.IH [OF Cons.prems(1) this] show ?thesis .
  next
    case True
    show ?thesis
    proof (cases "table1 = table2 \<and> \<not> printed st")
      case o: True
      with trav_invD(1) [OF inv Cons.prems(1)] have "I (print_origin st table1)" by blast
      moreover from o True rels Cons.prems(2)
      have "xmlrel_backward fuel db table1 tables (print_origin st table1) = Some (Inr st')"
        by simp
      ultimately show ?thesis by (rule Cons.IH)
    next
      case False
      with True rels Cons.prems(2) obtain st1 where
        c: "print_tablerel fuel db table1 table1 table2 1 st = Some (Inr st1)" and
        r: "xmlrel_backward fuel db table1 tables st1 = Some (Inr st')"
        by (auto split: option.splits sum.splits if_splits)
      from False have "pre table2 st" by (intro trav_inv_pre [OF inv]) blast
      from print_tablerel_inv [OF inv Cons.prems(1) this _ c] have "I st1" by simp
      from Cons.IH [OF this r] show ?thesis .
    qed
  qed
qed

lemma xmlrel_table_inv:
  assumes inv: "trav_inv pre True table1 I"
    and start: "I \<lparr>out = fout @ [table_open table1], route = [], printed = False\<rparr>"
    and run: "xmlrel_table fuel db table1 fout = Some (Inr st')"
  shows "\<exists>st. I st \<and> st' = st\<lparr>out := out st @ [table_close]\<rparr>"
proof -
  from run obtain st1 st2 where
    f: "xmlrel_forward fuel db table1 (dict_keys (db_entries db))
          \<lparr>out = fout @ [table_open table1], route = [], printed = False\<rparr> = Some (Inr st1)" and
    b: "xmlrel_backward fuel db table1 (dict_keys (db_entries db)) st1 = Some (Inr st2)" and
    e: "st' = st2\<lparr>out := out st2 @ [table_close]\<rparr>"
    by (auto simp: xmlrel_table_def split: option.splits sum.splits)
  from xmlrel_forward_inv [OF inv start f] have "I st1" .
  from xmlrel_backward_inv [OF inv this b] have "I st2" .
  with e show ?thesis by blast
qed

lemma relation_line_eq:
  "length ty = length ty' \<Longrightarrow>
   relation_line ty table = relation_line ty' table' \<longleftrightarrow> ty = ty' \<and> table = table'"
  by (auto simp: relation_line_def dq_def nl_def)

lemma spaces_not_relation_line: "''        '' \<noteq> relation_line ty table"
  by (simp add: relation_line_def)

lemma origin_inv:
  "trav_inv (\<lambda>table st. True) True toriginal
     (\<lambda>st. count_origin toriginal (out st) = c + (if printed st then 1 else 0))"
  unfolding trav_inv_def
  by (auto simp: count_origin_def print_origin_def print_relation_def relation_line_eq
        spaces_not_relation_line)

lemma relations_inv:
  "trav_inv (\<lambda>table st. True) True toriginal
     (\<lambda>st. count_relations b (out st) \<le> c + (if b \<in> set (route st) then 1 else 0))"
  unfolding trav_inv_def
  by (auto simp: count_relations_def print_origin_def print_relation_def relation_line_eq
        spaces_not_relation_line)

lemma distinct_inv:
  "trav_inv (\<lambda>table st. table = toriginal \<longrightarrow> printed st) True toriginal
     (\<lambda>st. distinct (route st) \<and> (printed st \<longleftrightarrow> toriginal \<in> set (route st)))"
  unfolding trav_inv_def by (auto simp: print_origin_def)

lemma grows_inv:
  "trav_inv (\<lambda>table st. True) True toriginal (\<lambda>st. \<exists>ext. route st = r0 @ ext)"
  unfolding trav_inv_def by (auto simp: print_origin_def)

section \<open>The traversal returns\<close>

lemma card_diff_route:
  assumes "finite U" and "set r \<subseteq> set r'"
  shows "card (U - set r') \<le> card (U - set r)"
  using assms by (intro card_mono) auto

lemma card_diff_append:
  assumes "finite U" and "x \<in> U" and "x \<notin> set r"
  shows "card (U - set (r @ [x])) < card (U - set r)"
  using assms by (intro psubset_card_mono) auto

lemma check_keys_total:
  assumes fin: "finite U"
    and call: "\<And>table st. card (U - set (route st)) < n \<Longrightarrow> \<exists>r. call table st = Some r"
    and mono: "\<And>table st st'. call table st = Some (Inr st') \<Longrightarrow> set (route st) \<subseteq> set (route st')"
  shows "card (U - set (route st)) < n \<Longrightarrow> \<exists>r. check_keys call toriginal tables st = Some r"
proof (induction tables arbitrary: st)
  case Nil
  then show ?case by simp
next
  case (Cons table tables)
  show ?case
  proof (cases "table = toriginal \<and> \<not> printed st")
    case True
    have "card (U - set (route (print_origin st table))) \<le> card (U - set (route st))"
      by (rule card_diff_route [OF fin]) (auto simp: print_origin_def)
    with Cons.prems have "card (U - set (route (print_origin st table))) < n" by simp
    from Cons.IH [OF this] True show ?thesis by simp
  next
    case False
    show ?thesis
    proof (cases "table \<notin> set (route st)")
      case nin: False
      with False Cons.IH [OF Cons.prems] show ?thesis by (auto split: if_splits)
    next
      case True
      from call [OF Cons.prems, of table] obtain r where r: "call table st = Some r" by blast
      show ?thesis
      proof (cases r)
        case (Inl e)
        with r True False show ?thesis by (auto split: if_splits)
      next
        case (Inr st1)
        from mono [of table st st1] r Inr have "set (route st) \<subseteq> set (route st1)" by simp
        from card_diff_route [OF fin this] Cons.prems have "card (U - set (route st1)) < n" by simp
        from Cons.IH [OF this] r Inr True False show ?thesis by (auto split: if_splits)
      qed
    qed
  qed
qed

lemma check_refs_total:
  assumes fin: "finite U"
    and call: "\<And>table st. card (U - set (route st)) < n \<Longrightarrow> \<exists>r. call table st = Some r"
    and mono: "\<And>table st st'. call table st = Some (Inr st') \<Longrightarrow> set (route st) \<subseteq> set (route st')"
  shows "card (U - set (route st)) < n \<Longrightarrow>
         \<exists>r. check_refs call db toriginal tname_to tables st = Some r"
proof (induction tables arbitrary: st)
  case Nil
  then show ?case by simp
next
  case (Cons table tables)
  show ?case
  proof (cases "map_of (db_relations db) table")
    case None
    then show ?thesis by simp
  next
    case (Some rels)
    show ?thesis
    proof (cases "tname_to \<in> set rels")
      case False
      with Some Cons.IH [OF Cons.prems] show ?thesis by simp
    next
      case True
      let ?st1 = "if table = toriginal \<and> \<not> printed st then print_origin st table else st"
      have "card (U - set (route ?st1)) \<le> card (U - set (route st))"
        by (rule card_diff_route [OF fin]) (auto simp: print_origin_def)
      with Cons.prems have m1: "card (U - set (route ?st1)) < n" by simp
      show ?thesis
      proof (cases "table \<noteq> toriginal \<and> table \<notin> set (route ?st1)")
        case False
        with Some True Cons.IH [OF m1] show ?thesis by (auto simp: Let_def split: if_splits)
      next
        case c: True
        from call [OF m1, of table] obtain r where r: "call table ?st1 = Some r" by blast
        show ?thesis
        proof (cases r)
          case (Inl e)
          with r c Some True show ?thesis by (auto simp: Let_def split: if_splits)
        next
          case (Inr st2)
          from mono [of table ?st1 st2] r Inr have "set (route ?st1) \<subseteq> set (route st2)" by simp
          from card_diff_route [OF fin this] m1 have "card (U - set (route st2)) < n" by simp
          from Cons.IH [OF this] r Inr c Some True show ?thesis
            by (auto simp: Let_def split: if_splits)
        qed
      qed
    qed
  qed
qed

lemma route_subset_inv:
  "trav_inv (\<lambda>table st. True) True toriginal (\<lambda>st. R \<subseteq> set (route st))"
  unfolding trav_inv_def by (auto simp: print_origin_def)

lemma print_tablerel_route_mono:
  assumes "print_tablerel fuel db toriginal tname_from tname_to rel st = Some (Inr st')"
  shows "set (route st) \<subseteq> set (route st')"
proof -
  have "trav_inv (\<lambda>table st. True) True toriginal (\<lambda>s. set (route st) \<subseteq> set (route s))"
    by (rule route_subset_inv)
  from print_tablerel_inv [OF this _ _ _ assms] show ?thesis by simp
qed

lemma check_keys_route_mono:
  assumes "check_keys (\<lambda>table. print_tablerel fuel db toriginal tname_from table rel) toriginal
             tables st = Some (Inr st')"
  shows "set (route st) \<subseteq> set (route st')"
proof -
  have i: "trav_inv (\<lambda>table st. True) True toriginal (\<lambda>s. set (route st) \<subseteq> set (route s))"
    by (rule route_subset_inv)
  show ?thesis
  proof (rule check_keys_inv [OF i _ _ assms])
    fix table s s'
    assume "set (route st) \<subseteq> set (route s)"
      and "print_tablerel fuel db toriginal tname_from table rel s = Some (Inr s')"
    then show "set (route st) \<subseteq> set (route s')"
      using print_tablerel_route_mono by blast
  qed simp
qed

lemma visit_total:
  assumes self: "\<And>tname_from table rel st.
                   card (set (dict_keys (db_relations db)) - set (route st)) < n \<Longrightarrow>
                   \<exists>r. print_tablerel fuel db toriginal tname_from table rel st = Some r"
    and m: "card (set (dict_keys (db_relations db)) - set (route st @ [tname_to])) < n"
  shows "\<exists>r. visit (print_tablerel fuel db toriginal) db toriginal tname_to rel_keys rel_refs st
              = Some r"
proof (cases "map_of (db_relations db) tname_to")
  case None
  then show ?thesis by (simp add: visit_def)
next
  case (Some rels)
  let ?U = "set (dict_keys (db_relations db))"
  let ?st1 = "st\<lparr>route := route st @ [tname_to]\<rparr>"
  have fin: "finite ?U" by simp
  from m have m1: "card (?U - set (route ?st1)) < n" by simp
  have "\<exists>r. check_keys (\<lambda>table. print_tablerel fuel db toriginal tname_to table rel_keys)
               toriginal rels ?st1 = Some r"
    by (rule check_keys_total [OF fin _ _ m1]) (auto intro: self dest: print_tablerel_route_mono)
  then obtain r where r: "check_keys (\<lambda>table. print_tablerel fuel db toriginal tname_to table rel_keys)
               toriginal rels ?st1 = Some r" by blast
  show ?thesis
  proof (cases r)
    case (Inl e)
    with r Some show ?thesis by (simp add: visit_def)
  next
    case (Inr st2)
    from check_keys_route_mono r Inr have "set (route ?st1) \<subseteq> set (route st2)" by blast
    from card_diff_route [OF fin this] m1 have m2: "card (?U - set (route st2)) < n" by simp
    have "\<exists>r. check_refs (\<lambda>table. print_tablerel fuel db toriginal tname_to table rel_refs) db
                 toriginal tname_to (dict_keys (db_entries db)) st2 = Some r"
      by (rule check_refs_total [OF fin _ _ m2]) (auto intro: self dest: print_tablerel_route_mono)
    with r Inr Some show ?thesis by (simp add: visit_def)
  qed
qed

lemma print_tablerel_total:
  "card (set (dict_keys (db_relations db)) - set (route st)) < fuel \<Longrightarrow>
   \<exists>r. print_tablerel fuel db toriginal tname_from tname_to rel st = Some r"
proof (induction fuel arbitrary: tname_from tname_to rel st)
  case 0
  then show ?case by simp
next
  case (Suc fuel)
  let ?U = "set (dict_keys (db_relations db))"
  have fin: "finite ?U" by simp
  have step: "\<exists>r. visit (print_tablerel fuel db toriginal) db toriginal tname_to rel_keys rel_refs s
                   = Some r"
    if "route s = route st" and "tname_to \<notin> set (route st)"
      and "map_of (db_relations db) tname_to \<noteq> None" for s rel_keys rel_refs
  proof -
    from that(3) have "tname_to \<in> ?U"
      by (auto simp: dict_keys_def dest!: map_of_SomeD intro: rev_image_eqI)
    from card_diff_append [OF fin this that(2)] Suc.prems
    have m: "card (?U - set (route s @ [tname_to])) < fuel" by (simp add: that(1))
    show ?thesis by (rule visit_total [where n = fuel, OF _ m]) (rule Suc.IH)
  qed
  have step2: "\<exists>r. visit (print_tablerel fuel db toriginal) db toriginal tname_to rel_keys rel_refs s
                   = Some r"
    if "route s = route st" and "tname_to \<notin> set (route st)" for s rel_keys rel_refs
  proof (cases "map_of (db_relations db) tname_to")
    case None
    then show ?thesis by (simp add: visit_def)
  next
    case (Some a)
    then show ?thesis using step [OF that] by simp
  qed
  consider (r0) "rel = 0" | (r1) "rel = 1" | (r2) "rel = 2" | (other) "rel \<noteq> 0" "rel \<noteq> 1" "rel \<noteq> 2"
    by blast
  then show ?case
  proof cases
    case r0
    then show ?thesis
      by (auto split: option.splits intro!: step2)
  next
    case r1
    then show ?thesis
      by (auto split: option.splits intro!: step2)
  next
    case r2
    then show ?thesis
      by (auto intro!: step2)
  next
    case other
    then show ?thesis by simp
  qed
qed

lemma card_keys_le:
  "card (set (dict_keys (db_relations db)) - R) \<le> length (db_relations db)"
proof -
  have "card (set (dict_keys (db_relations db)) - R) \<le> card (set (dict_keys (db_relations db)))"
    by (intro card_mono) auto
  also have "\<dots> \<le> length (dict_keys (db_relations db))" by (rule card_length)
  finally show ?thesis by (simp add: dict_keys_def)
qed

lemma print_tablerel_total_length:
  assumes "length (db_relations db) < fuel"
  shows "\<exists>r. print_tablerel fuel db toriginal tname_from tname_to rel st = Some r"
  using card_keys_le [of db "set (route st)"] assms
  by (intro print_tablerel_total) simp

lemma xmlrel_forward_total:
  assumes "length (db_relations db) < fuel"
  shows "\<exists>r. xmlrel_forward fuel db table1 tables st = Some r"
proof (induction tables arbitrary: st)
  case Nil
  then show ?case by simp
next
  case (Cons table2 tables)
  from print_tablerel_total_length [OF assms] obtain r where
    r: "print_tablerel fuel db table1 table1 table2 0 st = Some r" by blast
  show ?case
  proof (cases "table2 \<noteq> table1")
    case False
    with Cons.IH [of st] show ?thesis by simp
  next
    case True
    show ?thesis
    proof (cases r)
      case (Inl e)
      with r True show ?thesis by simp
    next
      case (Inr st1)
      with r True Cons.IH [of st1] show ?thesis by simp
    qed
  qed
qed

lemma xmlrel_backward_total:
  assumes "length (db_relations db) < fuel"
  shows "\<exists>r. xmlrel_backward fuel db table1 tables st = Some r"
proof (induction tables arbitrary: st)
  case Nil
  then show ?case by simp
next
  case (Cons table2 tables)
  from print_tablerel_total_length [OF assms] obtain r where
    r: "print_tablerel fuel db table1 table1 table2 1 st = Some r" by blast
  show ?case
  proof (cases "map_of (db_relations db) table2")
    case None
    then show ?thesis by simp
  next
    case (Some rels)
    show ?thesis
    proof (cases "table1 \<in> set rels")
      case False
      with Some Cons.IH [of st] show ?thesis by simp
    next
      case True
      show ?thesis
      proof (cases "table1 = table2 \<and> \<not> printed st")
        case o: True
        from Cons.IH [of "print_origin st table1"] obtain r' where
          "xmlrel_backward fuel db table1 tables (print_origin st table1) = Some r'" by blast
        with o True Some show ?thesis by simp
      next
        case False
        show ?thesis
        proof (cases r)
          case (Inl e)
          with r False True Some show ?thesis by (auto split: if_splits)
        next
          case (Inr st1)
          from Cons.IH [of st1] obtain r' where
            "xmlrel_backward fuel db table1 tables st1 = Some r'" by blast
          with r Inr False True Some show ?thesis by (auto split: if_splits)
        qed
      qed
    qed
  qed
qed

lemma xmlrel_table_total:
  assumes "length (db_relations db) < fuel"
  shows "\<exists>r. xmlrel_table fuel db table1 fout = Some r"
proof -
  let ?st0 = "\<lparr>out = fout @ [table_open table1], route = [], printed = False\<rparr>"
  from xmlrel_forward_total [OF assms] obtain r where
    r: "xmlrel_forward fuel db table1 (dict_keys (db_entries db)) ?st0 = Some r" by blast
  show ?thesis
  proof (cases r)
    case (Inl e)
    with r show ?thesis by (simp add: xmlrel_table_def)
  next
    case (Inr st1)
    from xmlrel_backward_total [OF assms] obtain r' where
      "xmlrel_backward fuel db table1 (dict_keys (db_entries db)) st1 = Some r'" by blast
    with r Inr show ?thesis by (cases r') (simp_all add: xmlrel_table_def)
  qed
qed

lemma xmlrel_tables_total:
  assumes "length (db_relations db) < fuel"
  shows "\<exists>r. xmlrel_tables fuel db tables fout = Some r"
proof (induction tables arbitrary: fout)
  case Nil
  then show ?case by simp
next
  case (Cons table1 tables)
  from xmlrel_table_total [OF assms] obtain r where
    r: "xmlrel_table fuel db table1 fout = Some r" by blast
  show ?case
  proof (cases r)
    case (Inl e)
    with r show ?thesis by simp
  next
    case (Inr st)
    with r Cons.IH [of "out st"] show ?thesis by simp
  qed
qed

lemma length_dict_set: "map_of d k = Some v' \<Longrightarrow> length (dict_set d k v) = length d"
  by (induction d k v rule: dict_set.induct) (auto split: if_splits)

lemma length_dict_set_le: "length (dict_set d k v) \<le> Suc (length d)"
  by (induction d k v rule: dict_set.induct) auto

lemma length_init_relations:
  "length (init_relations rels entries) \<le> length rels + length entries"
proof (induction rels entries rule: init_relations.induct)
  case (1 rels)
  then show ?case by simp
next
  case (2 rels k table entries)
  with length_dict_set_le [of rels "t_name table" "[]"] show ?case by simp
qed

lemma relations_add_length:
  "relations_add rels holder name = Inr rels' \<Longrightarrow> length rels' = length rels"
  by (auto simp: relations_add_def length_dict_set split: option.splits)

lemma flush_relation_length:
  assumes "flush_relation db tkey name count = Inr db'"
  shows "length (db_relations db') = length (db_relations db)
         \<and> length (db_entries db') = length (db_entries db)"
  using assms
  by (auto simp: flush_relation_def length_dict_set dest!: relations_add_length
           split: option.splits if_splits sum.splits)

lemma flush_table_length:
  "flush_table db tkey rels = Inr db' \<Longrightarrow>
   length (db_relations db') = length (db_relations db)
   \<and> length (db_entries db') = length (db_entries db)"
proof (induction rels arbitrary: db)
  case Nil
  then show ?case by simp
next
  case (Cons rel rels)
  obtain name count where rel: "rel = (name, count)" by (cases rel)
  from Cons.prems obtain db1 where
    a: "flush_relation db tkey name count = Inr db1" and b: "flush_table db1 tkey rels = Inr db'"
    by (auto simp: rel split: sum.splits)
  from flush_relation_length [OF a] Cons.IH [OF b] show ?case by simp
qed

lemma flush_tables_length:
  "flush_tables db tkeys = Inr db' \<Longrightarrow>
   length (db_relations db') = length (db_relations db)
   \<and> length (db_entries db') = length (db_entries db)"
proof (induction tkeys arbitrary: db)
  case Nil
  then show ?case by simp
next
  case (Cons tkey tkeys)
  from Cons.prems obtain table db1 where
    t: "map_of (db_entries db) tkey = Some table" and
    a: "flush_table db tkey (t_relations table) = Inr db1" and b: "flush_tables db1 tkeys = Inr db'"
    by (auto split: option.splits sum.splits)
  from flush_table_length [OF a] Cons.IH [OF b] show ?case by simp
qed

lemma flush_length:
  assumes "flush db = Inr db'"
  shows "length (db_relations db') \<le> length (db_entries db)"
proof -
  from assms have "flush_tables (db\<lparr>db_relations := init_relations [] (db_entries db)\<rparr>)
                     (dict_keys (db_entries db)) = Inr db'"
    by (simp add: flush_def)
  from flush_tables_length [OF this] length_init_relations [of "[]" "db_entries db"]
  show ?thesis by simp
qed

lemma print_xmlrel_total:
  assumes "length (db_entries db) < fuel"
  shows "\<exists>r. print_xmlrel fuel db fout = Some r"
proof (cases "flush db")
  case (Inl e)
  then show ?thesis by (simp add: print_xmlrel_def)
next
  case (Inr db')
  from flush_length [OF Inr] assms have "length (db_relations db') < fuel" by simp
  from xmlrel_tables_total [OF this] obtain r where
    "xmlrel_tables fuel db' (dict_keys (db_entries db')) (fout @ [''<tables>'' @ nl]) = Some r"
    by blast
  with Inr show ?thesis by (cases r) (auto simp: print_xmlrel_def)
qed

section \<open>The lines of a report\<close>

lemma count_forward_print_origin:
  "count_forward b (out (print_origin st table)) = count_forward b (out st)"
  by (simp add: count_forward_def print_origin_def print_relation_def relation_line_eq
        spaces_not_relation_line)

lemma count_forward_print_relation:
  "relation_type = ''N:M'' \<or> relation_type = ''N:1'' \<Longrightarrow>
   count_forward b (print_relation fout relation_type table)
     = count_forward b fout + (if b = table then 1 else 0)"
  by (auto simp: count_forward_def print_relation_def relation_line_eq spaces_not_relation_line)

lemma forward_inv:
  "trav_inv (\<lambda>table st. True) False toriginal
     (\<lambda>st. (\<forall>b. c b \<le> count_forward b (out st))
           \<and> (\<forall>b \<in> set (route st). b \<noteq> toriginal \<longrightarrow> c b + 1 \<le> count_forward b (out st)))"
  unfolding trav_inv_def
proof (intro conjI allI impI)
  fix st :: trav
  assume "(\<forall>b. c b \<le> count_forward b (out st))
           \<and> (\<forall>b \<in> set (route st). b \<noteq> toriginal \<longrightarrow> c b + 1 \<le> count_forward b (out st))"
  then show "\<forall>b \<in> set (route (print_origin st toriginal)).
               b \<noteq> toriginal \<longrightarrow> c b + 1 \<le> count_forward b (out (print_origin st toriginal))"
    and "c b \<le> count_forward b (out (print_origin st toriginal))" for b
    by (simp_all add: count_forward_print_origin) (simp add: print_origin_def)
next
  fix st :: trav and tname_to relation_type b
  assume I: "(\<forall>b. c b \<le> count_forward b (out st))
           \<and> (\<forall>b \<in> set (route st). b \<noteq> toriginal \<longrightarrow> c b + 1 \<le> count_forward b (out st))"
    and ty: "relation_type \<in> set (if False then [''N:M'', ''N:1'', ''1:N''] else [''N:M'', ''N:1''])"
  from ty have ty': "relation_type = ''N:M'' \<or> relation_type = ''N:1''" by simp
  let ?st = "st\<lparr>out := print_relation (out st) relation_type tname_to,
                 route := route st @ [tname_to]\<rparr>"
  from I have "c b \<le> count_forward b (out st)" by blast
  then show "c b \<le> count_forward b (out ?st)"
    by (simp add: count_forward_print_relation [OF ty'])
  show "\<forall>b \<in> set (route ?st). b \<noteq> toriginal \<longrightarrow> c b + 1 \<le> count_forward b (out ?st)"
  proof (intro ballI impI)
    fix b'
    assume b': "b' \<in> set (route ?st)" "b' \<noteq> toriginal"
    from I have le: "c b' \<le> count_forward b' (out st)" by blast
    show "c b' + 1 \<le> count_forward b' (out ?st)"
    proof (cases "b' = tname_to")
      case True
      with le show ?thesis by (simp add: count_forward_print_relation [OF ty'])
    next
      case False
      with b' I have "c b' + 1 \<le> count_forward b' (out st)" by auto
      then show ?thesis by (simp add: count_forward_print_relation [OF ty'])
    qed
  qed
qed simp_all

lemma count_relations_split:
  "count_relations table fout
     = count_forward table fout + count_list fout (relation_line ''1:N'' table)"
  by (induction fout) (auto simp: count_relations_def count_forward_def relation_line_eq)

lemma count_mono_inv:
  "trav_inv (\<lambda>table st. True) True toriginal
     (\<lambda>st. k \<le> count_forward b (out st) \<and> k' \<le> count_list (out st) line)"
  unfolding trav_inv_def
  by (auto simp: count_forward_def print_origin_def print_relation_def)

lemma route_member_inv:
  "trav_inv (\<lambda>table st. True) True toriginal (\<lambda>st. x \<in> set (route st))"
  unfolding trav_inv_def by (simp add: print_origin_def)

lemma print_tablerel_reaches:
  assumes run: "print_tablerel fuel db toriginal tname_from tname_to 0 st = Some (Inr st')"
    and rels: "map_of (db_relations db) tname_from = Some rels" and mem: "tname_to \<in> set rels"
  shows "tname_to \<in> set (route st')"
proof (cases fuel)
  case 0
  with run show ?thesis by simp
next
  case (Suc n)
  show ?thesis
  proof (cases "tname_to \<in> set (route st)")
    case True
    with run rels mem Suc show ?thesis by simp
  next
    case False
    with run rels mem Suc obtain rels_to where
      t: "map_of (db_relations db) tname_to = Some rels_to"
      by (simp split: option.splits)
    let ?s = "st\<lparr>out := print_relation (out st)
                          (if tname_from \<in> set rels_to then ''N:M'' else ''N:1'') tname_to\<rparr>"
    from run rels mem Suc False t
    have v: "visit (print_tablerel n db toriginal) db toriginal tname_to 0 2 ?s = Some (Inr st')"
      by simp
    show ?thesis
    proof (rule visit_inv [OF route_member_inv _ _ v])
      fix tname_from table rel' s s'
      assume a: "tname_to \<in> set (route s)"
        and r: "print_tablerel n db toriginal tname_from table rel' s = Some (Inr s')"
      from print_tablerel_route_mono [OF r] a show "tname_to \<in> set (route s')" by (rule subsetD)
    next
      show "tname_to \<in> set (route (?s\<lparr>route := route ?s @ [tname_to]\<rparr>))" by simp
    qed
  qed
qed

lemma xmlrel_forward_reaches:
  assumes rels: "map_of (db_relations db) table1 = Some rels" and mem: "b \<in> set rels"
    and ne: "b \<noteq> table1"
  shows "xmlrel_forward fuel db table1 tables st = Some (Inr st') \<Longrightarrow>
         b \<in> set tables \<or> b \<in> set (route st) \<Longrightarrow> b \<in> set (route st')"
proof (induction tables arbitrary: st)
  case Nil
  then show ?case by simp
next
  case (Cons table2 tables)
  show ?case
  proof (cases "table2 \<noteq> table1")
    case False
    with Cons.prems(1) have r: "xmlrel_forward fuel db table1 tables st = Some (Inr st')" by simp
    from Cons.prems(2) False ne have "b \<in> set tables \<or> b \<in> set (route st)" by auto
    from Cons.IH [OF r this] show ?thesis .
  next
    case True
    with Cons.prems(1) obtain st1 where
      c: "print_tablerel fuel db table1 table1 table2 0 st = Some (Inr st1)" and
      r: "xmlrel_forward fuel db table1 tables st1 = Some (Inr st')"
      by (auto split: option.splits sum.splits)
    have "b \<in> set tables \<or> b \<in> set (route st1)"
    proof (cases "b = table2")
      case True
      with print_tablerel_reaches [OF c rels] mem show ?thesis by simp
    next
      case False
      with Cons.prems(2) print_tablerel_route_mono [OF c] show ?thesis by auto
    qed
    from Cons.IH [OF r this] show ?thesis .
  qed
qed

lemma table_header_not_relation_line: "table_open table1 \<noteq> relation_line ty table"
  by (simp add: relation_line_def table_open_def)

lemma table_footer_not_relation_line: "table_close \<noteq> relation_line ty table"
  by (simp add: relation_line_def table_close_def)

lemma count_origin_snoc:
  "line \<noteq> relation_line ''1:1'' toriginal \<Longrightarrow>
   count_origin toriginal (fout @ [line]) = count_origin toriginal fout"
  by (simp add: count_origin_def)

lemma count_relations_snoc:
  "(\<And>ty. line \<noteq> relation_line ty table) \<Longrightarrow>
   count_relations table (fout @ [line]) = count_relations table fout"
  by (simp add: count_relations_def)

lemma count_forward_snoc:
  "(\<And>ty. line \<noteq> relation_line ty table) \<Longrightarrow>
   count_forward table (fout @ [line]) = count_forward table fout"
  by (simp add: count_forward_def)

lemma relation_lines_at_most_once:
  assumes "xmlrel_table fuel db table1 fout = Some (Inr st)"
  shows "count_relations table (out st) \<le> count_relations table fout + 1"
proof -
  let ?I = "\<lambda>s. count_relations table (out s)
                \<le> count_relations table fout + (if table \<in> set (route s) then 1 else 0)"
  have "?I \<lparr>out = fout @ [table_open table1], route = [], printed = False\<rparr>"
    by (simp add: count_relations_snoc table_header_not_relation_line)
  from xmlrel_table_inv [OF relations_inv this assms] obtain s where
    s: "?I s" "st = s\<lparr>out := out s @ [table_close]\<rparr>" by blast
  then show ?thesis
    by (simp add: count_relations_snoc table_footer_not_relation_line split: if_splits)
qed

lemma relation_line_at_least_once:
  assumes run: "xmlrel_table fuel db table1 fout = Some (Inr st)"
    and rels: "map_of (db_relations db) table1 = Some rels" and mem: "table \<in> set rels"
    and ne: "table \<noteq> table1" and ent: "table \<in> set (dict_keys (db_entries db))"
  shows "count_forward table fout + 1 \<le> count_forward table (out st)
         \<and> count_list fout line \<le> count_list (out st) line"
proof -
  let ?st0 = "\<lparr>out = fout @ [table_open table1], route = [], printed = False\<rparr>"
  from run obtain st1 st2 where
    f: "xmlrel_forward fuel db table1 (dict_keys (db_entries db)) ?st0 = Some (Inr st1)" and
    b: "xmlrel_backward fuel db table1 (dict_keys (db_entries db)) st1 = Some (Inr st2)" and
    e: "st = st2\<lparr>out := out st2 @ [table_close]\<rparr>"
    by (auto simp: xmlrel_table_def split: option.splits sum.splits)
  let ?F = "\<lambda>s. (\<forall>b. count_forward b fout \<le> count_forward b (out s))
                \<and> (\<forall>b \<in> set (route s). b \<noteq> table1 \<longrightarrow> count_forward b fout + 1 \<le> count_forward b (out s))"
  have "?F ?st0"
    by (simp add: count_forward_snoc table_header_not_relation_line)
  from xmlrel_forward_inv [OF forward_inv this f] have F1: "?F st1" .
  from xmlrel_forward_reaches [OF rels mem ne f] ent have "table \<in> set (route st1)" by simp
  with F1 ne have one: "count_forward table fout + 1 \<le> count_forward table (out st1)" by blast
  let ?M = "\<lambda>k k' s. k \<le> count_forward table (out s) \<and> k' \<le> count_list (out s) line"
  have "?M 0 (count_list fout line) ?st0" by simp
  from xmlrel_forward_inv [OF count_mono_inv this f]
  have "?M (count_forward table fout + 1) (count_list fout line) st1" using one by simp
  from xmlrel_backward_inv [OF count_mono_inv this b]
  have "?M (count_forward table fout + 1) (count_list fout line) st2" .
  with e show ?thesis by (simp add: count_forward_def)
qed

section \<open>The relation to the origin is printed\<close>

lemma advance_refl: "advance db toriginal st st"
  by (simp add: advance_def)

lemma advance_trans:
  "advance db toriginal st st1 \<Longrightarrow> advance db toriginal st1 st2 \<Longrightarrow> advance db toriginal st st2"
  unfolding advance_def by blast

lemma advance_print_origin:
  "has_link db toriginal \<Longrightarrow> advance db toriginal st (print_origin st table)"
  by (auto simp: advance_def print_origin_def)

lemma advance_printed: "advance db toriginal st st' \<Longrightarrow> printed st \<Longrightarrow> printed st'"
  by (simp add: advance_def)

lemma advance_same:
  "route s = route st \<Longrightarrow> printed s = printed st \<Longrightarrow>
   advance db toriginal s st' \<Longrightarrow> advance db toriginal st st'"
  by (simp add: advance_def)

lemma settled_advance:
  "settled db toriginal st \<Longrightarrow> advance db toriginal st st' \<Longrightarrow> settled db toriginal st'"
  unfolding settled_def advance_def by blast

lemma check_keys_advance:
  assumes call: "\<And>table st st'. call table st = Some (Inr st') \<Longrightarrow> advance db toriginal st st'"
  shows "check_keys call toriginal tables st = Some (Inr st') \<Longrightarrow>
         (toriginal \<in> set tables \<longrightarrow> has_link db toriginal) \<Longrightarrow>
         advance db toriginal st st' \<and> (toriginal \<in> set tables \<longrightarrow> printed st')"
proof (induction tables arbitrary: st)
  case Nil
  then show ?case by (simp add: advance_refl)
next
  case (Cons table tables)
  note run = Cons.prems(1)
  from Cons.prems(2) have lk: "toriginal \<in> set tables \<longrightarrow> has_link db toriginal"
    and lk0: "table = toriginal \<Longrightarrow> has_link db toriginal" by simp_all
  show ?case
  proof (cases "table = toriginal \<and> \<not> printed st")
    case True
    with run have r: "check_keys call toriginal tables (print_origin st table) = Some (Inr st')"
      by simp
    from Cons.IH [OF r lk] have a: "advance db toriginal (print_origin st table) st'" by simp
    have "printed (print_origin st table)" by (simp add: print_origin_def)
    with a have "printed st'" by (rule advance_printed)
    with advance_trans [OF advance_print_origin a] lk0 True show ?thesis by simp
  next
    case False
    show ?thesis
    proof (cases "table \<notin> set (route st)")
      case True
      with False run obtain st1 where
        c: "call table st = Some (Inr st1)" and
        r: "check_keys call toriginal tables st1 = Some (Inr st')"
        by (auto split: option.splits sum.splits if_splits)
      note a1 = call [OF c]
      from Cons.IH [OF r lk] have a2: "advance db toriginal st1 st'"
        and o: "toriginal \<in> set tables \<longrightarrow> printed st'" by simp_all
      have "printed st'" if "table = toriginal"
      proof -
        from that False have "printed st" by simp
        with a1 have "printed st1" by (rule advance_printed)
        with a2 show ?thesis by (rule advance_printed)
      qed
      with advance_trans [OF a1 a2] o show ?thesis by auto
    next
      case nin: False
      with False run have r: "check_keys call toriginal tables st = Some (Inr st')"
        by (auto split: if_splits)
      from Cons.IH [OF r lk] have a: "advance db toriginal st st'"
        and o: "toriginal \<in> set tables \<longrightarrow> printed st'" by simp_all
      have "printed st'" if "table = toriginal"
      proof -
        from that False have "printed st" by simp
        with a show ?thesis by (rule advance_printed)
      qed
      with a o show ?thesis by auto
    qed
  qed
qed

lemma check_refs_advance:
  assumes call: "\<And>table st st'. call table st = Some (Inr st') \<Longrightarrow> advance db toriginal st st'"
  shows "check_refs call db toriginal tname_to tables st = Some (Inr st') \<Longrightarrow>
         advance db toriginal st st'
         \<and> (toriginal \<in> set tables \<longrightarrow>
              (\<exists>rels. map_of (db_relations db) toriginal = Some rels \<and> tname_to \<in> set rels) \<longrightarrow>
              printed st')"
proof (induction tables arbitrary: st)
  case Nil
  then show ?case by (simp add: advance_refl)
next
  case (Cons table tables)
  from Cons.prems obtain rels where rels: "map_of (db_relations db) table = Some rels"
    by (auto split: option.splits)
  show ?case
  proof (cases "tname_to \<in> set rels")
    case False
    with rels Cons.prems have r: "check_refs call db toriginal tname_to tables st = Some (Inr st')"
      by simp
    from Cons.IH [OF r] rels False show ?thesis by auto
  next
    case True
    let ?st1 = "if table = toriginal \<and> \<not> printed st then print_origin st table else st"
    have "has_link db toriginal" if "table = toriginal"
      using that rels True by (auto simp: has_link_def)
    then have a0: "advance db toriginal st ?st1"
      by (simp add: advance_refl advance_print_origin)
    have p1: "table = toriginal \<Longrightarrow> printed ?st1"
      by (simp add: print_origin_def)
    show ?thesis
    proof (cases "table \<noteq> toriginal \<and> table \<notin> set (route ?st1)")
      case c: True
      with True rels Cons.prems obtain st2 where
        c2: "call table ?st1 = Some (Inr st2)" and
        r: "check_refs call db toriginal tname_to tables st2 = Some (Inr st')"
        by (auto simp: Let_def split: option.splits sum.splits if_splits)
      note a1 = call [OF c2]
      from Cons.IH [OF r] have a2: "advance db toriginal st2 st'"
        and o: "toriginal \<in> set tables \<longrightarrow>
              (\<exists>rels. map_of (db_relations db) toriginal = Some rels \<and> tname_to \<in> set rels) \<longrightarrow>
              printed st'" by simp_all
      from advance_trans [OF a0 advance_trans [OF a1 a2]] o c show ?thesis by auto
    next
      case False
      with True rels Cons.prems
      have r: "check_refs call db toriginal tname_to tables ?st1 = Some (Inr st')"
        by (auto simp: Let_def split: if_splits)
      from Cons.IH [OF r] have a2: "advance db toriginal ?st1 st'"
        and o: "toriginal \<in> set tables \<longrightarrow>
              (\<exists>rels. map_of (db_relations db) toriginal = Some rels \<and> tname_to \<in> set rels) \<longrightarrow>
              printed st'" by simp_all
      have "printed st'" if "table = toriginal"
        using advance_printed [OF a2 p1 [OF that]] .
      with advance_trans [OF a0 a2] o show ?thesis by auto
    qed
  qed
qed

lemma visit_advance:
  assumes self: "\<And>tname_from table rel st st'.
                   self tname_from table rel st = Some (Inr st') \<Longrightarrow> advance db toriginal st st'"
    and run: "visit self db toriginal tname_to rel_keys rel_refs st = Some (Inr st')"
  shows "advance db toriginal st st' \<and> tname_to \<in> set (route st')"
proof -
  let ?st1 = "st\<lparr>route := route st @ [tname_to]\<rparr>"
  from run obtain rels st2 where
    rels: "map_of (db_relations db) tname_to = Some rels" and
    k: "check_keys (\<lambda>table. self tname_to table rel_keys) toriginal rels ?st1 = Some (Inr st2)" and
    r: "check_refs (\<lambda>table. self tname_to table rel_refs) db toriginal tname_to
          (dict_keys (db_entries db)) st2 = Some (Inr st')"
    by (auto simp: visit_def Let_def split: option.splits sum.splits)
  have "toriginal \<in> set rels \<longrightarrow> has_link db toriginal"
    using rels by (auto simp: has_link_def)
  from check_keys_advance [OF self k this]
  have a1: "advance db toriginal ?st1 st2" and p1: "toriginal \<in> set rels \<Longrightarrow> printed st2"
    by simp_all
  from check_refs_advance [OF self r]
  have a2: "advance db toriginal st2 st'"
    and p2: "toriginal \<in> set (dict_keys (db_entries db)) \<Longrightarrow>
             \<exists>rels. map_of (db_relations db) toriginal = Some rels \<and> tname_to \<in> set rels \<Longrightarrow>
             printed st'"
    by simp_all
  note a = advance_trans [OF a1 a2]
  have to: "linked db toriginal tname_to \<Longrightarrow> printed st'"
    unfolding linked_def using rels p1 p2 advance_printed [OF a2] by auto
  from a have mem: "tname_to \<in> set (route st')" by (auto simp: advance_def)
  have "advance db toriginal st st'"
    unfolding advance_def
  proof (intro conjI ballI impI)
    assume "printed st"
    with a show "printed st'" by (simp add: advance_def)
  next
    from a show "set (route st) \<subseteq> set (route st')" by (auto simp: advance_def)
  next
    assume "printed st'"
    with a show "printed st \<or> has_link db toriginal" by (auto simp: advance_def)
  next
    fix table
    assume t: "table \<in> set (route st') - set (route st)" "table \<noteq> toriginal"
      "linked db toriginal table"
    show "printed st'"
    proof (cases "table = tname_to")
      case True
      with t(3) to show ?thesis by simp
    next
      case False
      with t(1) have "table \<in> set (route st') - set (route ?st1)" by simp
      with a t(2,3) show ?thesis unfolding advance_def by blast
    qed
  qed
  with mem show ?thesis by simp
qed

lemma print_tablerel_advance:
  "print_tablerel fuel db toriginal tname_from tname_to rel st = Some (Inr st') \<Longrightarrow>
   advance db toriginal st st'"
proof (induction fuel arbitrary: tname_from tname_to rel st st')
  case 0
  then show ?case by simp
next
  case (Suc fuel)
  note run = Suc.prems
  have step: "advance db toriginal st st'"
    if "visit (print_tablerel fuel db toriginal) db toriginal tname_to rel_keys rel_refs s
          = Some (Inr st')"
      and "route s = route st" and "printed s = printed st" for s rel_keys rel_refs
  proof -
    from visit_advance [OF Suc.IH that(1)] have "advance db toriginal s st'" by simp
    with that(2,3) show ?thesis by (rule advance_same)
  qed
  consider (r0) "rel = 0" | (r1) "rel = 1" | (r2) "rel = 2" | (other) "rel \<noteq> 0" "rel \<noteq> 1" "rel \<noteq> 2"
    by blast
  then show ?case
  proof cases
    case r0
    from run r0 obtain rels_from where
      f: "map_of (db_relations db) tname_from = Some rels_from"
      by (auto split: option.splits)
    show ?thesis
    proof (cases "tname_to \<in> set rels_from \<and> tname_to \<notin> set (route st)")
      case False
      with run r0 f show ?thesis by (auto simp: advance_refl)
    next
      case True
      with run r0 f obtain rels_to where
        t: "map_of (db_relations db) tname_to = Some rels_to"
        by (auto split: option.splits)
      let ?s = "st\<lparr>out := print_relation (out st)
                    (if tname_from \<in> set rels_to then ''N:M'' else ''N:1'') tname_to\<rparr>"
      from run r0 f t True
      have "visit (print_tablerel fuel db toriginal) db toriginal tname_to 0 2 ?s = Some (Inr st')"
        by simp
      then show ?thesis by (rule step) simp_all
    qed
  next
    case r1
    from run r1 obtain rels_to where
      t: "map_of (db_relations db) tname_to = Some rels_to"
      by (auto split: option.splits)
    show ?thesis
    proof (cases "tname_from \<in> set rels_to \<and> tname_to \<notin> set (route st)")
      case False
      with run r1 t show ?thesis by (auto simp: advance_refl)
    next
      case True
      with run r1 t obtain rels_from where
        f: "map_of (db_relations db) tname_from = Some rels_from"
        by (auto split: option.splits)
      let ?s = "if tname_to \<in> set rels_from then
                   (if tname_from \<noteq> toriginal then
                      st\<lparr>out := print_relation (out st) ''N:M'' tname_to\<rparr>
                    else st)
                 else st\<lparr>out := print_relation (out st) ''1:N'' tname_to\<rparr>"
      from run r1 f t True
      have "visit (print_tablerel fuel db toriginal) db toriginal tname_to 2 1 ?s = Some (Inr st')"
        by simp
      then show ?thesis by (rule step) simp_all
    qed
  next
    case r2
    show ?thesis
    proof (cases "tname_to \<notin> set (route st) \<and> tname_to \<noteq> toriginal")
      case False
      with run r2 show ?thesis by (auto simp: advance_refl)
    next
      case True
      let ?s = "st\<lparr>out := print_relation (out st) ''N:M'' tname_to\<rparr>"
      from run r2 True
      have "visit (print_tablerel fuel db toriginal) db toriginal tname_to 2 2 ?s = Some (Inr st')"
        by simp
      then show ?thesis by (rule step) simp_all
    qed
  next
    case other
    with run show ?thesis by (simp add: advance_refl)
  qed
qed

lemma print_tablerel_backward_prints:
  assumes run: "print_tablerel fuel db toriginal toriginal table2 1 st = Some (Inr st')"
    and rels: "map_of (db_relations db) table2 = Some rels" and mem: "toriginal \<in> set rels"
    and s: "settled db toriginal st" and g: "table2 = toriginal \<longrightarrow> printed st"
  shows "printed st'"
proof -
  note a = print_tablerel_advance [OF run]
  have l: "linked db toriginal table2"
    using rels mem by (auto simp: linked_def)
  show ?thesis
  proof (cases "table2 = toriginal")
    case True
    with g a show ?thesis by (auto dest: advance_printed)
  next
    case ne: False
    show ?thesis
    proof (cases "table2 \<in> set (route st)")
      case True
      with s ne l have "printed st" by (auto simp: settled_def)
      with a show ?thesis by (rule advance_printed)
    next
      case False
      obtain n where fuel: "fuel = Suc n" using run by (cases fuel) simp_all
      from run fuel rels mem False obtain s1 rk rr where
        v: "visit (print_tablerel n db toriginal) db toriginal table2 rk rr s1 = Some (Inr st')"
        by (auto split: option.splits)
      from visit_advance [OF print_tablerel_advance v] have "table2 \<in> set (route st')" by simp
      with False a ne l show ?thesis unfolding advance_def by blast
    qed
  qed
qed

lemma xmlrel_forward_advance:
  "xmlrel_forward fuel db table1 tables st = Some (Inr st') \<Longrightarrow> advance db table1 st st'"
proof (induction tables arbitrary: st)
  case Nil
  then show ?case by (simp add: advance_refl)
next
  case (Cons table2 tables)
  show ?case
  proof (cases "table2 \<noteq> table1")
    case False
    with Cons show ?thesis by simp
  next
    case True
    with Cons.prems obtain st1 where
      c: "print_tablerel fuel db table1 table1 table2 0 st = Some (Inr st1)" and
      r: "xmlrel_forward fuel db table1 tables st1 = Some (Inr st')"
      by (auto split: option.splits sum.splits)
    from advance_trans [OF print_tablerel_advance [OF c] Cons.IH [OF r]] show ?thesis .
  qed
qed

lemma xmlrel_backward_advance:
  "xmlrel_backward fuel db table1 tables st = Some (Inr st') \<Longrightarrow> settled db table1 st \<Longrightarrow>
   advance db table1 st st'
   \<and> (\<forall>table2 \<in> set tables. \<forall>rels. map_of (db_relations db) table2 = Some rels \<longrightarrow>
         table1 \<in> set rels \<longrightarrow> printed st')"
proof (induction tables arbitrary: st)
  case Nil
  then show ?case by (simp add: advance_refl)
next
  case (Cons table2 tables)
  from Cons.prems(1) obtain rels where rels: "map_of (db_relations db) table2 = Some rels"
    by (auto split: option.splits)
  show ?case
  proof (cases "table1 \<in> set rels")
    case False
    with rels Cons.prems(1) have r: "xmlrel_backward fuel db table1 tables st = Some (Inr st')"
      by simp
    from Cons.IH [OF r Cons.prems(2)] rels False show ?thesis by auto
  next
    case True
    show ?thesis
    proof (cases "table1 = table2 \<and> \<not> printed st")
      case o: True
      let ?st1 = "print_origin st table1"
      from o True rels Cons.prems(1)
      have r: "xmlrel_backward fuel db table1 tables ?st1 = Some (Inr st')" by simp
      have "has_link db table1" using rels True by (auto simp: has_link_def)
      then have a0: "advance db table1 st ?st1" by (rule advance_print_origin)
      from Cons.IH [OF r settled_advance [OF Cons.prems(2) a0]]
      have a1: "advance db table1 ?st1 st'"
        and rest: "\<forall>t \<in> set tables. \<forall>rels. map_of (db_relations db) t = Some rels \<longrightarrow>
                     table1 \<in> set rels \<longrightarrow> printed st'" by simp_all
      have "printed ?st1" by (simp add: print_origin_def)
      with a1 have "printed st'" by (rule advance_printed)
      with advance_trans [OF a0 a1] show ?thesis by simp
    next
      case False
      with True rels Cons.prems(1) obtain st1 where
        c: "print_tablerel fuel db table1 table1 table2 1 st = Some (Inr st1)" and
        r: "xmlrel_backward fuel db table1 tables st1 = Some (Inr st')"
        by (auto split: option.splits sum.splits if_splits)
      note a0 = print_tablerel_advance [OF c]
      from False have g: "table2 = table1 \<longrightarrow> printed st" by auto
      from print_tablerel_backward_prints [OF c rels True Cons.prems(2) g] have p1: "printed st1" .
      from Cons.IH [OF r settled_advance [OF Cons.prems(2) a0]]
      have a1: "advance db table1 st1 st'"
        and rest: "\<forall>t \<in> set tables. \<forall>rels. map_of (db_relations db) t = Some rels \<longrightarrow>
                     table1 \<in> set rels \<longrightarrow> printed st'" by simp_all
      from advance_printed [OF a1 p1] have "printed st'" .
      with advance_trans [OF a0 a1] show ?thesis by simp
    qed
  qed
qed

lemma origin_relation_printed:
  assumes run: "xmlrel_table fuel db table1 fout = Some (Inr st)"
  shows "(\<forall>table rels. table \<in> set (dict_keys (db_entries db)) \<longrightarrow>
            map_of (db_relations db) table = Some rels \<longrightarrow> table1 \<in> set rels \<longrightarrow> printed st)
         \<and> (\<forall>table rels. table1 \<in> set (dict_keys (db_entries db)) \<longrightarrow>
               table \<in> set (dict_keys (db_entries db)) \<longrightarrow> table \<noteq> table1 \<longrightarrow>
               map_of (db_relations db) table1 = Some rels \<longrightarrow> table \<in> set rels \<longrightarrow> printed st)
         \<and> (printed st \<longrightarrow> has_link db table1)"
proof -
  let ?st0 = "\<lparr>out = fout @ [table_open table1], route = [], printed = False\<rparr>"
  from run obtain st1 st2 where
    f: "xmlrel_forward fuel db table1 (dict_keys (db_entries db)) ?st0 = Some (Inr st1)" and
    b: "xmlrel_backward fuel db table1 (dict_keys (db_entries db)) st1 = Some (Inr st2)" and
    e: "st = st2\<lparr>out := out st2 @ [table_close]\<rparr>"
    by (auto simp: xmlrel_table_def split: option.splits sum.splits)
  have "settled db table1 ?st0" by (simp add: settled_def)
  note a1 = xmlrel_forward_advance [OF f]
  from settled_advance [OF \<open>settled db table1 ?st0\<close> a1] have s1: "settled db table1 st1" .
  from xmlrel_backward_advance [OF b s1]
  have a2: "advance db table1 st1 st2"
    and referred: "\<And>table rels. table \<in> set (dict_keys (db_entries db)) \<Longrightarrow>
           map_of (db_relations db) table = Some rels \<Longrightarrow> table1 \<in> set rels \<Longrightarrow> printed st2"
    by blast+
  have refers: "printed st2"
    if t: "table1 \<in> set (dict_keys (db_entries db))" "table \<in> set (dict_keys (db_entries db))"
      "table \<noteq> table1" "map_of (db_relations db) table1 = Some rels" "table \<in> set rels"
    for table rels
  proof -
    from xmlrel_forward_reaches [OF t(4,5,3) f] t(2) have "table \<in> set (route st1)" by simp
    moreover have "linked db table1 table" using t(1,4,5) by (auto simp: linked_def)
    ultimately have "printed st1" using s1 t(3) by (auto simp: settled_def)
    with a2 show ?thesis by (rule advance_printed)
  qed
  have "has_link db table1" if "printed st2"
    using that advance_trans [OF a1 a2] by (simp add: advance_def)
  with referred refers e show ?thesis by simp
qed

section \<open>The relation report\<close>

lemma report_cycle_a: "xmlrel_table 3 db_cycle ''a'' [] = Some (Inr report_a)"
  by code_simp

lemma report_self_a: "xmlrel_table 2 db_self ''a'' [] = Some (Inr report_self)"
  by code_simp

lemma report_single_a:
  "flush db_without_value = Inr db_single
   \<and> xmlrel_table 1 db_single ''a'' [] = Some (Inr report_single)"
  by code_simp

text \<open>
  C6. The report of an origin has at most one line of the relation 1:1 to the origin.
  It has one whenever a table of the database refers to the origin, or the origin, a
  table of the database, refers to another table of it; it has none when no name refers
  to the origin and the origin refers to no name. The lines that \<^verbatim>\<open>print_xmlrel\<close> writes
  for the origin \<open>table1\<close> after \<open>fout\<close> add one such line when the flag \<^verbatim>\<open>printed\<close> is set
  at the end, and none otherwise. The flag is set by the first return to the origin and
  is never cleared.
\<close>

theorem origin_relation_once:
  assumes "xmlrel_table fuel db table1 fout = Some (Inr st)"
  shows "count_origin table1 (out st) = count_origin table1 fout + (if printed st then 1 else 0)
         \<and> count_origin table1 (out st) \<le> count_origin table1 fout + 1
         \<and> (\<forall>table rels. table \<in> set (dict_keys (db_entries db)) \<longrightarrow>
               map_of (db_relations db) table = Some rels \<longrightarrow> table1 \<in> set rels \<longrightarrow>
               count_origin table1 (out st) = count_origin table1 fout + 1)
         \<and> (\<forall>table rels. table1 \<in> set (dict_keys (db_entries db)) \<longrightarrow>
               table \<in> set (dict_keys (db_entries db)) \<longrightarrow> table \<noteq> table1 \<longrightarrow>
               map_of (db_relations db) table1 = Some rels \<longrightarrow> table \<in> set rels \<longrightarrow>
               count_origin table1 (out st) = count_origin table1 fout + 1)
         \<and> (\<not> has_link db table1 \<longrightarrow>
               count_origin table1 (out st) = count_origin table1 fout)"
proof -
  let ?I = "\<lambda>s. count_origin table1 (out s) = count_origin table1 fout + (if printed s then 1 else 0)"
  have "?I \<lparr>out = fout @ [table_open table1], route = [], printed = False\<rparr>"
    by (simp add: count_origin_snoc table_header_not_relation_line)
  from xmlrel_table_inv [OF origin_inv this assms] obtain s where
    s: "?I s" "st = s\<lparr>out := out s @ [table_close]\<rparr>" by blast
  then have count: "count_origin table1 (out st)
                      = count_origin table1 fout + (if printed st then 1 else 0)"
    by (simp add: count_origin_snoc table_footer_not_relation_line)
  note p = origin_relation_printed [OF assms]
  show ?thesis
  proof (intro conjI allI impI)
    show "count_origin table1 (out st)
            = count_origin table1 fout + (if printed st then 1 else 0)"
      by (rule count)
    show "count_origin table1 (out st) \<le> count_origin table1 fout + 1"
      using count by simp
  next
    fix table rels
    assume "table \<in> set (dict_keys (db_entries db))"
      "map_of (db_relations db) table = Some rels" "table1 \<in> set rels"
    with p have "printed st" by blast
    with count show "count_origin table1 (out st) = count_origin table1 fout + 1" by simp
  next
    fix table rels
    assume "table1 \<in> set (dict_keys (db_entries db))" "table \<in> set (dict_keys (db_entries db))"
      "table \<noteq> table1" "map_of (db_relations db) table1 = Some rels" "table \<in> set rels"
    with p have "printed st" by blast
    with count show "count_origin table1 (out st) = count_origin table1 fout + 1" by simp
  next
    assume "\<not> has_link db table1"
    with p have "\<not> printed st" by blast
    with count show "count_origin table1 (out st) = count_origin table1 fout" by simp
  qed
qed

theorem origin_relation_once_witness:
  "xmlrel_table 3 db_cycle ''a'' [] = Some (Inr report_a)
   \<and> ''b'' \<in> set (dict_keys (db_entries db_cycle))
   \<and> map_of (db_relations db_cycle) ''b'' = Some [''a'']
   \<and> ''a'' \<in> set (dict_keys (db_entries db_cycle))
   \<and> map_of (db_relations db_cycle) ''a'' = Some [''x'', ''b'']
   \<and> count_origin ''a'' (out report_a) = 1
   \<and> xmlrel_table 2 db_self ''a'' [] = Some (Inr report_self)
   \<and> ''a'' \<in> set (dict_keys (db_entries db_self))
   \<and> map_of (db_relations db_self) ''a'' = Some [''a'']
   \<and> count_origin ''a'' (out report_self) = 1
   \<and> xmlrel_table 1 db_single ''a'' [] = Some (Inr report_single)
   \<and> \<not> has_link db_single ''a''
   \<and> count_origin ''a'' (out report_single) = 0"
proof -
  have b: "''b'' \<in> set (dict_keys (db_entries db_cycle))" by code_simp
  have rb: "map_of (db_relations db_cycle) ''b'' = Some [''a'']" by code_simp
  have ac: "''a'' \<in> set (dict_keys (db_entries db_cycle))" by code_simp
  have rac: "map_of (db_relations db_cycle) ''a'' = Some [''x'', ''b'']" by code_simp
  have a: "''a'' \<in> set (dict_keys (db_entries db_self))" by code_simp
  have ra: "map_of (db_relations db_self) ''a'' = Some [''a'']" by code_simp
  have m: "''a'' \<in> set [''a'']" by simp
  have mb: "''b'' \<in> set [''x'', ''b'']" by simp
  have ne: "''b'' \<noteq> ''a''" by simp
  have nl: "\<not> has_link db_single ''a''"
    by (auto simp: has_link_def db_single_def split: if_splits)
  note single = report_single_a [THEN conjunct2]
  note c1 = origin_relation_once [OF report_cycle_a, THEN conjunct2, THEN conjunct2,
      THEN conjunct1, rule_format, OF b rb m]
  note c2 = origin_relation_once [OF report_self_a, THEN conjunct2, THEN conjunct2,
      THEN conjunct1, rule_format, OF a ra m]
  note c3 = origin_relation_once [OF report_cycle_a, THEN conjunct2, THEN conjunct2,
      THEN conjunct2, THEN conjunct1, rule_format, OF ac b ne rac mb]
  note c4 = origin_relation_once [OF single, THEN conjunct2, THEN conjunct2,
      THEN conjunct2, THEN conjunct2, rule_format, OF nl]
  from c1 c2 c3 c4 b rb ac rac a ra nl report_cycle_a report_self_a single show ?thesis
    by (simp add: count_origin_def)
qed

text \<open>
  The report of an origin has at most one line of a relation N:M, N:1 or 1:N to any
  table; and when the origin refers to another table of the database, the report has
  exactly one such line to that table, of the type N:M or N:1.
\<close>

lemma one_relation_line_per_table:
  assumes run: "xmlrel_table fuel db table1 fout = Some (Inr st)"
  shows "count_relations table (out st) \<le> count_relations table fout + 1
         \<and> (\<forall>rels. map_of (db_relations db) table1 = Some rels \<longrightarrow> table \<in> set rels \<longrightarrow>
                table \<noteq> table1 \<longrightarrow> table \<in> set (dict_keys (db_entries db)) \<longrightarrow>
                count_forward table (out st) = count_forward table fout + 1
                \<and> count_list (out st) (relation_line ''1:N'' table)
                    = count_list fout (relation_line ''1:N'' table))"
proof (intro conjI allI impI)
  show le: "count_relations table (out st) \<le> count_relations table fout + 1"
    by (rule relation_lines_at_most_once [OF run])
  fix rels
  assume a: "map_of (db_relations db) table1 = Some rels" "table \<in> set rels" "table \<noteq> table1"
    "table \<in> set (dict_keys (db_entries db))"
  from relation_line_at_least_once [OF run a, of "relation_line ''1:N'' table"] le
  show "count_forward table (out st) = count_forward table fout + 1"
    and "count_list (out st) (relation_line ''1:N'' table)
           = count_list fout (relation_line ''1:N'' table)"
    by (simp_all add: count_relations_split)
qed

text \<open>
  C7. The claim: when two tables refer to each other, the report of each of them has
  exactly one N:M line for the pair. The code does not print it in the report of \<open>a\<close>
  for the document \<^verbatim>\<open><root><a><x k="1"><b><a/></b></x><b/></a></root>\<close>: the tables \<open>a\<close> and
  \<open>b\<close> refer to each other, \<open>b\<close> is first reached through \<open>x\<close> and is printed as N:1,
  whatever the order in which the relations of \<open>a\<close> are visited, and the report of \<open>a\<close>
  has no N:M line. The report of \<open>b\<close> prints the same pair as N:M.
\<close>

theorem cycle_pair_reported_as_many_to_one:
  "(case xtd_items (el_children doc_cycle) (Database_init (- 1) False False) of
      Inl e \<Rightarrow> Inl e | Inr db \<Rightarrow> flush db) = Inr db_cycle
   \<and> map_of (db_relations db_cycle) ''a'' = Some [''x'', ''b'']
   \<and> map_of (db_relations db_cycle) ''b'' = Some [''a'']
   \<and> xmlrel_table 3 db_cycle ''a'' [] = Some (Inr report_a)
   \<and> xmlrel_table 3 (db_cycle\<lparr>db_relations := [(''x'', [''b'']), (''a'', [''b'', ''x'']), (''b'', [''a''])]\<rparr>)
         ''a'' [] = Some (Inr report_a)
   \<and> count_list (out report_a) (relation_line ''N:M'' ''b'') = 0
   \<and> count_list (out report_a) (relation_line ''N:1'' ''b'') = 1
   \<and> xmlrel_table 3 db_cycle ''b'' [] = Some (Inr report_b)
   \<and> count_list (out report_b) (relation_line ''N:M'' ''a'') = 1"
  by code_simp

text \<open>
  C8. The traversal returns on every database, with cycles or without. A call of
  \<^verbatim>\<open>print_tablerel\<close> returns (or raises) when it may recurse deeper than the number of
  names with relations that are not yet in the route; the route of the result extends
  the route of the call; the route of a report holds distinct names; and
  \<^verbatim>\<open>print_xmlrel\<close> returns (or raises) when the recursion may go deeper than the number of
  tables.
\<close>

theorem traversal_terminates:
  "(card (set (dict_keys (db_relations db)) - set (route st)) < fuel \<longrightarrow>
      print_tablerel fuel db toriginal tname_from tname_to rel st \<noteq> None)
   \<and> (\<forall>st'. print_tablerel fuel db toriginal tname_from tname_to rel st = Some (Inr st') \<longrightarrow>
          (\<exists>ext. route st' = route st @ ext))
   \<and> (\<forall>st'. xmlrel_table fuel db origin fout = Some (Inr st') \<longrightarrow> distinct (route st'))
   \<and> (length (db_entries db) < fuel \<longrightarrow> print_xmlrel fuel db fout \<noteq> None)"
proof (intro conjI allI impI)
  assume "card (set (dict_keys (db_relations db)) - set (route st)) < fuel"
  from print_tablerel_total [OF this]
  show "print_tablerel fuel db toriginal tname_from tname_to rel st \<noteq> None" by auto
next
  fix st'
  assume r: "print_tablerel fuel db toriginal tname_from tname_to rel st = Some (Inr st')"
  have "trav_inv (\<lambda>table st. True) True toriginal (\<lambda>s. \<exists>ext. route s = route st @ ext)"
    by (rule grows_inv)
  from print_tablerel_inv [OF this _ _ _ r] show "\<exists>ext. route st' = route st @ ext" by simp
next
  fix st'
  assume r: "xmlrel_table fuel db origin fout = Some (Inr st')"
  let ?I = "\<lambda>s. distinct (route s) \<and> (printed s \<longleftrightarrow> origin \<in> set (route s))"
  have "?I \<lparr>out = fout @ [table_open origin], route = [], printed = False\<rparr>" by simp
  from xmlrel_table_inv [OF distinct_inv this r] show "distinct (route st')" by auto
next
  assume "length (db_entries db) < fuel"
  from print_xmlrel_total [OF this] show "print_xmlrel fuel db fout \<noteq> None" by auto
qed

theorem traversal_terminates_witness:
  "length (db_entries db_cycle) < 4 \<and> print_xmlrel 4 db_cycle [] \<noteq> None
   \<and> card (set (dict_keys (db_relations db_cycle)) - set []) < 4
   \<and> print_tablerel 4 db_cycle ''a'' ''a'' ''x'' 0 \<lparr>out = [], route = [], printed = False\<rparr> \<noteq> None
   \<and> xmlrel_table 3 db_cycle ''a'' [] = Some (Inr report_a) \<and> distinct (route report_a)"
proof -
  let ?st = "\<lparr>out = [], route = [], printed = False\<rparr>"
  have len: "length (db_entries db_cycle) < 4" by code_simp
  have "length (db_relations db_cycle) < 4" by code_simp
  with card_keys_le [of db_cycle "set []"]
  have c: "card (set (dict_keys (db_relations db_cycle)) - set (route ?st)) < 4" by simp
  note t = traversal_terminates [where db = db_cycle and st = ?st and fuel = 4
      and toriginal = "''a''" and tname_from = "''a''" and tname_to = "''x''" and rel = 0
      and origin = "''a''" and fout = "[]"]
  from t c have a: "print_tablerel 4 db_cycle ''a'' ''a'' ''x'' 0 ?st \<noteq> None" by blast
  from traversal_terminates [where db = db_cycle and fuel = 3 and origin = "''a''"
      and fout = "[]"] report_cycle_a
  have d: "distinct (route report_a)" by blast
  from t len have p: "print_xmlrel 4 db_cycle [] \<noteq> None" by blast
  from len p c a d report_cycle_a show ?thesis by simp
qed

end
